theory Spec2Isabelle
  imports Complex_Main
begin

section \<open>The hash-tree of \<open>hash_tree.h\<close>\<close>

text \<open>
  The container of \<open>src/hash_tree.h\<close> is a hash map whose entries also form a tree.
  All links (hash chain, parent, children, root) are \<open>size_t\<close> indices into one
  slot store, with \<open>_EMPTY_INDEX = numeric_limits<size_t>::max()\<close> as the empty link.

  Conventions of the embedding:
  \<^item> a link that may be \<open>_EMPTY_INDEX\<close> is a \<open>nat option\<close>, \<open>None\<close> being
    \<open>_EMPTY_INDEX\<close>; an entry of a \<open>childs\<close> vector is a \<open>nat\<close>;
  \<^item> the C++ has no checks: indexing the store with an identifier that is not live,
    a remainder by a zero table size and the use of an invalidated iterator are
    undefined behaviour. Every operation returns \<open>fault + result\<close>, with \<open>Inl\<close>
    naming the first such event;
  \<^item> the hasher is the member \<open>_hasher\<close>, a field of the state; \<open>_keyeq\<close> is
    \<open>std::equal_to\<close>, that is HOL equality.
\<close>

datatype fault =
    Invalid_Slot        \<comment> \<open>\<open>_nodes[i]\<close> or \<open>_nodes.erase(i)\<close> with \<open>i\<close> not a live slot\<close>
  | Division_By_Zero    \<comment> \<open>\<open>hash % table_size()\<close> with an empty bucket table\<close>
  | Out_Of_Range        \<comment> \<open>a vector indexed beyond its size\<close>
  | Invalid_Iterator    \<comment> \<open>\<open>childs.insert\<close> at an invalidated position\<close>
  | Slot_In_Use         \<comment> \<open>the store asked to hand out a slot that is live (never happens)\<close>
  | Nontermination      \<comment> \<open>a chain walk that revisits a slot, or a loop out of fuel\<close>

definition bind :: "fault + 'a \<Rightarrow> ('a \<Rightarrow> fault + 'b) \<Rightarrow> fault + 'b" where
  "bind m f = (case m of Inl e \<Rightarrow> Inl e | Inr x \<Rightarrow> f x)"

subsection \<open>The slot store\<close>

text \<open>
  Modelled from the spec: \<open>sparse_vector.h\<close> is not among the sources. The spec (section 6)
  gives its contract: \<open>emplace\<close> constructs a record and returns a slot identifier that
  stays valid until that record is erased; \<open>erase\<close> removes exactly that record;
  \<open>operator[]\<close> gives the record of a slot; \<open>size\<close>, \<open>clear\<close>, \<open>shrink_to_fit\<close>; forward
  iteration yields each live record with its slot identifier.

  The store is a list of optional records, slot \<open>i\<close> being live when entry \<open>i\<close> is
  \<open>Some\<close>. Which free identifier \<open>emplace\<close> hands out is not fixed by the contract,
  so it is an argument of \<open>sv_emplace\<close> (and of the inserts below). Iteration goes by
  ascending slot identifier. \<open>shrink_to_fit\<close> releases capacity only and is the identity.
\<close>

type_synonym 'a sparse_vector = "'a option list"

definition sv_get :: "'a sparse_vector \<Rightarrow> nat \<Rightarrow> 'a option" where
  "sv_get v i = (if i < length v then v ! i else None)"

definition sv_size :: "'a sparse_vector \<Rightarrow> nat" where
  "sv_size v = length (filter (\<lambda>x. x \<noteq> None) v)"

definition sv_emplace :: "'a sparse_vector \<Rightarrow> nat \<Rightarrow> 'a \<Rightarrow> 'a sparse_vector" where
  "sv_emplace v i x =
     (if i < length v then v[i := Some x]
      else v @ replicate (i - length v) None @ [Some x])"

definition sv_erase :: "'a sparse_vector \<Rightarrow> nat \<Rightarrow> 'a sparse_vector" where
  "sv_erase v i = v[i := None]"

definition sv_indices :: "'a sparse_vector \<Rightarrow> nat list" where
  "sv_indices v = filter (\<lambda>i. v ! i \<noteq> None) [0..<length v]"

definition node_at :: "'a sparse_vector \<Rightarrow> nat option \<Rightarrow> fault + 'a" where
  \<comment> \<open>\<open>_nodes[idx]\<close> read\<close>
  "node_at v idx =
     (case idx of None \<Rightarrow> Inl Invalid_Slot
      | Some i \<Rightarrow> (case sv_get v i of None \<Rightarrow> Inl Invalid_Slot | Some x \<Rightarrow> Inr x))"

definition modify :: "'a sparse_vector \<Rightarrow> nat option \<Rightarrow> ('a \<Rightarrow> 'a) \<Rightarrow> fault + 'a sparse_vector" where
  \<comment> \<open>\<open>_nodes[idx].field = ...\<close>\<close>
  "modify v idx f =
     (case idx of None \<Rightarrow> Inl Invalid_Slot
      | Some i \<Rightarrow> (case sv_get v i of None \<Rightarrow> Inl Invalid_Slot
                   | Some x \<Rightarrow> Inr (v[i := Some (f x)])))"

subsection \<open>Nodes and the container\<close>

record ('k, 't) hash_tree_node =
  pair :: "'k \<times> 't"
  hash_value :: nat
  childs :: "nat list"
  parent_index :: "nat option"
  next_index :: "nat option"

record ('k, 't) hash_tree =
  nodes :: "('k, 't) hash_tree_node sparse_vector"
  table :: "nat option list"
  head_index :: "nat option"
  hasher :: "'k \<Rightarrow> nat"

definition hash_tree_init :: "('k \<Rightarrow> nat) \<Rightarrow> ('k, 't) hash_tree" where
  \<comment> \<open>the default constructor: \<open>_table{ _EMPTY_INDEX, _EMPTY_INDEX }\<close>\<close>
  "hash_tree_init h = \<lparr>nodes = [], table = [None, None], head_index = None, hasher = h\<rparr>"

definition size_ht :: "('k, 't) hash_tree \<Rightarrow> nat" where
  "size_ht st = sv_size (nodes st)"

definition table_size :: "('k, 't) hash_tree \<Rightarrow> nat" where
  "table_size st = length (table st)"

definition MAX_LOAD :: rat where "MAX_LOAD = 9 / 10"
definition MIN_LOAD :: rat where "MIN_LOAD = 2 / 10"

definition load_factor :: "('k, 't) hash_tree \<Rightarrow> rat" where
  "load_factor st = of_nat (size_ht st) / of_nat (table_size st)"

text \<open>
  \<open>load_factor()\<close> is a \<open>double\<close>. With an empty bucket table it is \<open>+inf\<close> (some
  node stored) or \<open>NaN\<close> (none), where HOL's division gives \<open>0\<close>; the two comparisons
  of the source are written out for that case. For table sizes below \<open>2^50\<close> the
  rounded quotient compares with the rounded constants \<open>0.9\<close> and \<open>0.2\<close> as the exact
  quotient does with \<open>9/10\<close> and \<open>2/10\<close>.
\<close>

definition load_above_max :: "('k, 't) hash_tree \<Rightarrow> bool" where
  \<comment> \<open>\<open>load_factor() > MAX_LOAD\<close>\<close>
  "load_above_max st =
     (if table_size st = 0 then 0 < size_ht st else MAX_LOAD < load_factor st)"

definition load_below_min :: "('k, 't) hash_tree \<Rightarrow> bool" where
  \<comment> \<open>\<open>load_factor() < MIN_LOAD\<close>\<close>
  "load_below_min st =
     (if table_size st = 0 then False else load_factor st < MIN_LOAD)"

definition clear :: "('k, 't) hash_tree \<Rightarrow> ('k, 't) hash_tree" where
  "clear st = st\<lparr>head_index := None, table := [], nodes := []\<rparr>"

subsection \<open>The hash index\<close>

text \<open>
  The loop of \<open>index\<close>. The walk reads the store only, so a walk that makes more steps
  than the store has slots has met a slot twice and never ends: the fuel
  \<open>Suc (length (nodes st))\<close> is exact, and running out of it is \<open>Nontermination\<close>.
\<close>

fun index_walk ::
  "nat \<Rightarrow> ('k, 't) hash_tree_node sparse_vector \<Rightarrow> nat \<Rightarrow> 'k \<Rightarrow> nat \<Rightarrow> fault + nat option" where
  "index_walk 0 v hv key i = Inl Nontermination"
| "index_walk (Suc n) v hv key i =
     (case sv_get v i of
        None \<Rightarrow> Inl Invalid_Slot
      | Some nd \<Rightarrow>
          (case next_index nd of
             Some j \<Rightarrow>
               if hash_value nd = hv \<and> fst (pair nd) = key then Inr (Some i)
               else index_walk n v hv key j
           | None \<Rightarrow>
               if hash_value nd = hv \<and> fst (pair nd) = key then Inr (Some i)
               else Inr None))"

definition index :: "('k, 't) hash_tree \<Rightarrow> 'k \<Rightarrow> fault + nat option" where
  "index st key =
     (let hv = hasher st key in
      if table_size st = 0 then Inl Division_By_Zero
      else (case table st ! (hv mod table_size st) of
              None \<Rightarrow> Inr None
            | Some i \<Rightarrow> index_walk (Suc (length (nodes st))) (nodes st) hv key i))"

text \<open>The loop of \<open>insert_map\<close>: the last slot of the chain that starts at \<open>i\<close>.\<close>

fun chain_tail ::
  "nat \<Rightarrow> ('k, 't) hash_tree_node sparse_vector \<Rightarrow> nat \<Rightarrow> fault + nat" where
  "chain_tail 0 v i = Inl Nontermination"
| "chain_tail (Suc n) v i =
     (case sv_get v i of
        None \<Rightarrow> Inl Invalid_Slot
      | Some nd \<Rightarrow> (case next_index nd of None \<Rightarrow> Inr i | Some j \<Rightarrow> chain_tail n v j))"

definition insert_map :: "('k, 't) hash_tree \<Rightarrow> nat \<Rightarrow> nat \<Rightarrow> fault + ('k, 't) hash_tree" where
  "insert_map st map_index node_index =
     (if length (table st) \<le> map_index then Inl Out_Of_Range
      else (case table st ! map_index of
              None \<Rightarrow> Inr (st\<lparr>table := (table st)[map_index := Some node_index]\<rparr>)
            | Some i \<Rightarrow>
                bind (chain_tail (Suc (length (nodes st))) (nodes st) i) (\<lambda>t.
                bind (modify (nodes st) (Some t) (\<lambda>nd. nd\<lparr>next_index := Some node_index\<rparr>)) (\<lambda>v.
                Inr (st\<lparr>nodes := v\<rparr>)))))"

fun rehash_loop :: "('k, 't) hash_tree \<Rightarrow> nat list \<Rightarrow> fault + ('k, 't) hash_tree" where
  "rehash_loop st [] = Inr st"
| "rehash_loop st (i # is) =
     bind (node_at (nodes st) (Some i)) (\<lambda>nd.
     if table_size st = 0 then Inl Division_By_Zero
     else bind (insert_map st (hash_value nd mod table_size st) i) (\<lambda>st'.
          rehash_loop st' is))"

definition rehash :: "('k, 't) hash_tree \<Rightarrow> nat \<Rightarrow> fault + ('k, 't) hash_tree" where
  "rehash st new_size =
     (let v = map (map_option (\<lambda>nd. nd\<lparr>next_index := None\<rparr>)) (nodes st);
          st1 = st\<lparr>nodes := v, table := replicate new_size None\<rparr>
      in rehash_loop st1 (sv_indices v))"

subsection \<open>Insert\<close>

definition new_node :: "'k \<Rightarrow> 't \<Rightarrow> nat \<Rightarrow> ('k, 't) hash_tree_node" where
  \<comment> \<open>the node that \<open>emplace\<close> constructs from the pair and the hash; the other
      members take their default initialisers\<close>
  "new_node key val hv =
     \<lparr>pair = (key, val), hash_value = hv, childs = [], parent_index = None, next_index = None\<rparr>"

definition priv_insert ::
  "('k, 't) hash_tree \<Rightarrow> nat \<Rightarrow> 'k \<Rightarrow> 't \<Rightarrow> fault + (nat \<times> ('k, 't) hash_tree)" where
  \<comment> \<open>\<open>_insert\<close>; \<open>slot\<close> is the identifier that \<open>_nodes.emplace\<close> hands out\<close>
  "priv_insert st slot key val =
     bind (if load_above_max st then rehash st (table_size st * 2) else Inr st) (\<lambda>st1.
     let hv = hasher st1 key in
     if sv_get (nodes st1) slot \<noteq> None then Inl Slot_In_Use
     else
       let st2 = st1\<lparr>nodes := sv_emplace (nodes st1) slot (new_node key val hv)\<rparr>
       in if table_size st2 = 0 then Inl Division_By_Zero
          else bind (insert_map st2 (hv mod table_size st2) slot) (\<lambda>st3. Inr (slot, st3)))"

definition insert_kv ::
  "('k, 't) hash_tree \<Rightarrow> nat \<Rightarrow> 'k \<Rightarrow> 't \<Rightarrow> fault + ('k, 't) hash_tree" where
  \<comment> \<open>\<open>insert(K&& key, T&& value)\<close>\<close>
  "insert_kv st slot key val =
     bind (priv_insert st slot key val) (\<lambda>(i, st1).
     case head_index st1 of
       None \<Rightarrow> Inr (st1\<lparr>head_index := Some i\<rparr>)
     | Some h \<Rightarrow>
         bind (modify (nodes st1) (Some h) (\<lambda>nd. nd\<lparr>childs := childs nd @ [i]\<rparr>)) (\<lambda>v.
         bind (modify v (Some i) (\<lambda>nd. nd\<lparr>parent_index := Some h\<rparr>)) (\<lambda>v'.
         Inr (st1\<lparr>nodes := v'\<rparr>))))"

definition insert_kvp ::
  "('k, 't) hash_tree \<Rightarrow> nat \<Rightarrow> 'k \<Rightarrow> 't \<Rightarrow> 'k \<Rightarrow> fault + ('k, 't) hash_tree" where
  \<comment> \<open>\<open>insert(K&& key, T&& value, const K& parent)\<close>\<close>
  "insert_kvp st slot key val parent =
     bind (priv_insert st slot key val) (\<lambda>(i, st1).
     bind (index st1 parent) (\<lambda>p.
     bind (modify (nodes st1) p (\<lambda>nd. nd\<lparr>childs := childs nd @ [i]\<rparr>)) (\<lambda>v.
     bind (modify v (Some i) (\<lambda>nd. nd\<lparr>parent_index := p\<rparr>)) (\<lambda>v'.
     Inr (st1\<lparr>nodes := v'\<rparr>)))))"

subsection \<open>Erase and reparent\<close>

definition remove_child ::
  "('k, 't) hash_tree_node sparse_vector \<Rightarrow> nat \<Rightarrow> fault + ('k, 't) hash_tree_node sparse_vector" where
  \<comment> \<open>\<open>std::remove\<close> followed by \<open>erase\<close> deletes every occurrence\<close>
  "remove_child v child_index =
     bind (node_at v (Some child_index)) (\<lambda>c.
     modify v (parent_index c) (\<lambda>nd. nd\<lparr>childs := removeAll child_index (childs nd)\<rparr>))"

function erase_loop ::
  "('k, 't) hash_tree_node sparse_vector \<Rightarrow> nat list \<Rightarrow> fault + ('k, 't) hash_tree_node sparse_vector" where
  "erase_loop v [] = Inr v"
| "erase_loop v (f # q) =
     (case sv_get v f of
        None \<Rightarrow> Inl Invalid_Slot
      | Some nd \<Rightarrow> erase_loop (sv_erase v f) (q @ childs nd))"
  by pat_completeness auto

termination erase_loop
proof (relation "measure (\<lambda>(v, q). sv_size v)")
  show "wf (measure (\<lambda>(v, q). sv_size v))" by simp
next
  fix v :: "('k, 't) hash_tree_node sparse_vector" and f q nd
  assume live: "sv_get v f = Some nd"
  have "sv_get w g = Some x \<Longrightarrow> sv_size (sv_erase w g) < sv_size w"
    for w :: "('k, 't) hash_tree_node sparse_vector" and g x
  proof (induction w arbitrary: g)
    case Nil
    then show ?case by (simp add: sv_get_def)
  next
    case (Cons a w)
    show ?case
    proof (cases g)
      case 0
      with Cons.prems show ?thesis by (simp add: sv_get_def sv_size_def sv_erase_def)
    next
      case (Suc g')
      with Cons.prems have "sv_get w g' = Some x" by (simp add: sv_get_def split: if_splits)
      from Cons.IH [OF this] Suc show ?thesis by (simp add: sv_size_def sv_erase_def)
    qed
  qed
  from this [OF live]
  show "((sv_erase v f, q @ childs nd), (v, f # q)) \<in> measure (\<lambda>(v, q). sv_size v)"
    by simp
qed

definition erase :: "('k, 't) hash_tree \<Rightarrow> 'k \<Rightarrow> fault + ('k, 't) hash_tree" where
  "erase st key =
     bind (index st key) (\<lambda>idx.
     if idx = head_index st then Inr (clear st)
     else
       bind (node_at (nodes st) idx) (\<lambda>nd.
       bind (if parent_index nd \<noteq> None then remove_child (nodes st) (the idx)
             else Inr (nodes st)) (\<lambda>v.
       bind (erase_loop v [the idx]) (\<lambda>v'.
       let st1 = st\<lparr>nodes := v'\<rparr>
       in if load_below_min st1 then rehash st1 (table_size st1 div 2) else Inr st1))))"

definition priv_set_parent ::
  "('k, 't) hash_tree \<Rightarrow> nat option \<Rightarrow> nat option \<Rightarrow> nat \<Rightarrow> fault + ('k, 't) hash_tree" where
  \<comment> \<open>\<open>_set_parent\<close>; \<open>pos\<close> is the offset of the iterator \<open>_where\<close> in the new parent's
      \<open>childs\<close>, taken by the caller before \<open>remove_child\<close> runs\<close>
  "priv_set_parent st idx p pos =
     bind (node_at (nodes st) idx) (\<lambda>nd.
     bind (if parent_index nd \<noteq> None then remove_child (nodes st) (the idx)
           else Inr (nodes st)) (\<lambda>v.
     bind (node_at v p) (\<lambda>pn.
     if length (childs pn) < pos then Inl Invalid_Iterator
     else
       bind (modify v p (\<lambda>x. x\<lparr>childs := take pos (childs x) @ the idx # drop pos (childs x)\<rparr>)) (\<lambda>v1.
       bind (modify v1 idx (\<lambda>x. x\<lparr>parent_index := p\<rparr>)) (\<lambda>v2.
       Inr (st\<lparr>nodes := v2\<rparr>))))))"

definition set_parent :: "('k, 't) hash_tree \<Rightarrow> 'k \<Rightarrow> 'k \<Rightarrow> fault + ('k, 't) hash_tree" where
  \<comment> \<open>\<open>set_parent(key, new_parent)\<close>: \<open>_where\<close> is \<open>childs.end()\<close> of the new parent\<close>
  "set_parent st key new_parent =
     bind (index st key) (\<lambda>idx.
     bind (index st new_parent) (\<lambda>p.
     bind (node_at (nodes st) p) (\<lambda>pn.
     priv_set_parent st idx p (length (childs pn)))))"


text \<open>
  Two members of the source have no counterpart here because their bodies are not
  well-formed C++: \<open>contains\<close> calls \<open>index()\<close> without an argument, and the
  \<open>set_parent\<close> overload with a position declares a local \<open>_index\<close> that has the
  name of its third parameter.
\<close>

subsection \<open>The traversal iterator\<close>

text \<open>
  The iterator keeps the raw pointer \<open>_nodes.data()\<close>, which it indexes by slot
  identifier; here the store is passed to each step. \<open>_visit\<close> holds \<open>size_t\<close>
  values, the first of which may be \<open>_EMPTY_INDEX\<close>.
\<close>

record hash_tree_iterator =
  visit :: "nat option list"
  it_index :: nat

definition begin_it :: "('k, 't) hash_tree \<Rightarrow> hash_tree_iterator" where
  "begin_it st = \<lparr>visit = [head_index st], it_index = 0\<rparr>"

definition end_it :: "('k, 't) hash_tree \<Rightarrow> hash_tree_iterator" where
  "end_it st = \<lparr>visit = [None], it_index = size_ht st\<rparr>"

definition it_eq :: "hash_tree_iterator \<Rightarrow> hash_tree_iterator \<Rightarrow> bool" where
  \<comment> \<open>\<open>operator==\<close>\<close>
  "it_eq a b = (it_index a = it_index b)"

definition current :: "hash_tree_iterator \<Rightarrow> fault + nat option" where
  \<comment> \<open>\<open>_visit[_index]\<close>\<close>
  "current it =
     (if length (visit it) \<le> it_index it then Inl Out_Of_Range
      else Inr (visit it ! it_index it))"

definition deref ::
  "('k, 't) hash_tree_node sparse_vector \<Rightarrow> hash_tree_iterator \<Rightarrow> fault + 't" where
  \<comment> \<open>\<open>operator*\<close>\<close>
  "deref v it =
     bind (current it) (\<lambda>c. bind (node_at v c) (\<lambda>nd. Inr (snd (pair nd))))"

definition incr ::
  "('k, 't) hash_tree_node sparse_vector \<Rightarrow> hash_tree_iterator \<Rightarrow> fault + hash_tree_iterator" where
  \<comment> \<open>\<open>operator++\<close>\<close>
  "incr v it =
     bind (current it) (\<lambda>c. bind (node_at v c) (\<lambda>nd.
     Inr (it\<lparr>visit := visit it @ map Some (childs nd), it_index := Suc (it_index it)\<rparr>)))"

text \<open>
  The loop \<open>for (it = begin(); it != end(); ++it) use(*it)\<close> of a caller. It returns
  the slots and values dereferenced, in order. The position counter goes up by one
  in each round, so \<open>size()\<close> rounds of fuel are exact for a loop that starts at
  position \<open>0\<close>.
\<close>

fun traverse ::
  "nat \<Rightarrow> ('k, 't) hash_tree_node sparse_vector \<Rightarrow> hash_tree_iterator \<Rightarrow> hash_tree_iterator
     \<Rightarrow> fault + (nat option \<times> 't) list" where
  "traverse 0 v it e = (if it_eq it e then Inr [] else Inl Nontermination)"
| "traverse (Suc n) v it e =
     (if it_eq it e then Inr []
      else bind (current it) (\<lambda>c.
           bind (deref v it) (\<lambda>x.
           bind (incr v it) (\<lambda>it'.
           bind (traverse n v it' e) (\<lambda>xs. Inr ((c, x) # xs))))))"

definition traversal :: "('k, 't) hash_tree \<Rightarrow> fault + (nat option \<times> 't) list" where
  "traversal st = traverse (size_ht st) (nodes st) (begin_it st) (end_it st)"

subsection \<open>Sequences of operations\<close>

datatype ('k, 't) operation =
    Insert nat 'k 't
  | Insert_Under nat 'k 't 'k
  | Erase 'k
  | Set_Parent 'k 'k

fun apply_op :: "('k, 't) hash_tree \<Rightarrow> ('k, 't) operation \<Rightarrow> fault + ('k, 't) hash_tree" where
  "apply_op st (Insert slot key val) = insert_kv st slot key val"
| "apply_op st (Insert_Under slot key val parent) = insert_kvp st slot key val parent"
| "apply_op st (Erase key) = erase st key"
| "apply_op st (Set_Parent key new_parent) = set_parent st key new_parent"

fun run :: "('k, 't) hash_tree \<Rightarrow> ('k, 't) operation list \<Rightarrow> fault + ('k, 't) hash_tree" where
  "run st [] = Inr st"
| "run st (op # ops) = bind (apply_op st op) (\<lambda>st'. run st' ops)"

text \<open>
  The two uses that the source does not guard against and that break the root
  bookkeeping: an insert under an explicit parent into a map without root, and a
  reparenting of the root itself.
\<close>

fun guarded :: "('k, 't) hash_tree \<Rightarrow> ('k, 't) operation \<Rightarrow> bool" where
  "guarded st (Insert_Under slot key val parent) = (head_index st \<noteq> None)"
| "guarded st (Set_Parent key new_parent) = (index st key \<noteq> Inr (head_index st))"
| "guarded st _ = True"

fun guarded_run :: "('k, 't) hash_tree \<Rightarrow> ('k, 't) operation list \<Rightarrow> bool" where
  "guarded_run st [] = True"
| "guarded_run st (op # ops) =
     (guarded st op \<and>
      (case apply_op st op of Inl e \<Rightarrow> True | Inr st' \<Rightarrow> guarded_run st' ops))"

text \<open>
  A stricter guard, under which every map built is a tree: on top of the above, an insert
  under an explicit parent names a parent key other than the new key, and \<open>set_parent\<close>
  does not move a node below itself. \<open>anc_walk n v p i\<close> follows the parent links from
  slot \<open>p\<close> for at most \<open>n\<close> steps and tells whether it meets slot \<open>i\<close>.
\<close>

fun anc_walk :: "nat \<Rightarrow> ('k, 't) hash_tree_node sparse_vector \<Rightarrow> nat \<Rightarrow> nat \<Rightarrow> bool" where
  "anc_walk 0 v p i = (p = i)"
| "anc_walk (Suc n) v p i =
     (p = i \<or>
      (case sv_get v p of None \<Rightarrow> False
       | Some nd \<Rightarrow> (case parent_index nd of None \<Rightarrow> False | Some q \<Rightarrow> anc_walk n v q i)))"

fun proper :: "('k, 't) hash_tree \<Rightarrow> ('k, 't) operation \<Rightarrow> bool" where
  "proper st (Insert slot key val) = True"
| "proper st (Insert_Under slot key val parent) = (head_index st \<noteq> None \<and> key \<noteq> parent)"
| "proper st (Erase key) = True"
| "proper st (Set_Parent key new_parent) =
     (case (index st key, index st new_parent) of
        (Inr (Some i), Inr (Some p)) \<Rightarrow>
          Some i \<noteq> head_index st \<and> \<not> anc_walk (length (nodes st)) (nodes st) p i
      | _ \<Rightarrow> True)"

fun proper_run :: "('k, 't) hash_tree \<Rightarrow> ('k, 't) operation list \<Rightarrow> bool" where
  "proper_run st [] = True"
| "proper_run st (op # ops) =
     (proper st op \<and>
      (case apply_op st op of Inl e \<Rightarrow> True | Inr st' \<Rightarrow> proper_run st' ops))"

subsection \<open>Properties of a state\<close>

definition tree_part :: "('k, 't) hash_tree_node \<Rightarrow> ('k, 't) hash_tree_node" where
  \<comment> \<open>a node without its hash-chain link\<close>
  "tree_part nd = nd\<lparr>next_index := None\<rparr>"

definition tree_of ::
  "('k, 't) hash_tree_node sparse_vector \<Rightarrow> nat \<Rightarrow> ('k, 't) hash_tree_node option" where
  "tree_of v j = map_option tree_part (sv_get v j)"

definition single_root :: "('k, 't) hash_tree \<Rightarrow> bool" where
  "single_root st \<longleftrightarrow>
     (\<forall>i nd. sv_get (nodes st) i = Some nd \<longrightarrow> parent_index nd = None \<longrightarrow>
        head_index st = Some i) \<and>
     ((size_ht st = 0) = (head_index st = None))"

definition links_ok :: "('k, 't) hash_tree \<Rightarrow> bool" where
  \<comment> \<open>the root is live and has no parent; a child is live and names its parent\<close>
  "links_ok st \<longleftrightarrow>
     (\<forall>r. head_index st = Some r \<longrightarrow>
        (\<exists>nd. sv_get (nodes st) r = Some nd \<and> parent_index nd = None)) \<and>
     (\<forall>x nd c. sv_get (nodes st) x = Some nd \<longrightarrow> c \<in> set (childs nd) \<longrightarrow>
        (\<exists>cn. sv_get (nodes st) c = Some cn \<and> parent_index cn = Some x))"

definition tree_inv :: "('k, 't) hash_tree \<Rightarrow> bool" where
  "tree_inv st \<longleftrightarrow> single_root st \<and> links_ok st"

definition child_rel :: "('k, 't) hash_tree_node sparse_vector \<Rightarrow> (nat \<times> nat) set" where
  "child_rel v = {(x, c). \<exists>nd. sv_get v x = Some nd \<and> c \<in> set (childs nd)}"

definition subtree :: "('k, 't) hash_tree_node sparse_vector \<Rightarrow> nat \<Rightarrow> nat set" where
  \<comment> \<open>the slots reachable from \<open>i\<close> along children links\<close>
  "subtree v i = (child_rel v)\<^sup>* `` {i}"

definition rooted :: "('k, 't) hash_tree \<Rightarrow> bool" where
  \<comment> \<open>the map is one tree: the root invariant, no children sequence repeats a slot,
      every live slot is reachable from the root\<close>
  "rooted st \<longleftrightarrow>
     tree_inv st \<and>
     (\<forall>j nd. sv_get (nodes st) j = Some nd \<longrightarrow> distinct (childs nd)) \<and>
     (\<forall>j r. sv_get (nodes st) j \<noteq> None \<longrightarrow> head_index st = Some r \<longrightarrow>
        j \<in> subtree (nodes st) r)"

text \<open>
  A well-formed hash index: every bucket heads a chain of live slots, without
  repetition, that ends in an empty \<open>next_index\<close>.
\<close>

inductive chain ::
  "('k, 't) hash_tree_node sparse_vector \<Rightarrow> nat option \<Rightarrow> nat list \<Rightarrow> bool"
  for v :: "('k, 't) hash_tree_node sparse_vector" where
  chain_Nil: "chain v None []"
| chain_Cons: "sv_get v i = Some nd \<Longrightarrow> chain v (next_index nd) xs \<Longrightarrow> i \<notin> set xs \<Longrightarrow>
     chain v (Some i) (i # xs)"

definition hash_ok :: "('k, 't) hash_tree \<Rightarrow> bool" where
  "hash_ok st \<longleftrightarrow>
     table_size st \<noteq> 0 \<and> (\<forall>b<table_size st. \<exists>xs. chain (nodes st) (table st ! b) xs)"

definition unchained :: "('k, 't) hash_tree \<Rightarrow> nat \<Rightarrow> bool" where
  \<comment> \<open>slot \<open>s\<close> is on no bucket's chain\<close>
  "unchained st s \<longleftrightarrow>
     (\<forall>b<table_size st. \<forall>xs. chain (nodes st) (table st ! b) xs \<longrightarrow> s \<notin> set xs)"

definition key_match ::
  "('k, 't) hash_tree_node sparse_vector \<Rightarrow> nat \<Rightarrow> 'k \<Rightarrow> nat \<Rightarrow> bool" where
  \<comment> \<open>the test that \<open>index\<close> makes on the node in slot \<open>j\<close>\<close>
  "key_match v hv key j =
     (case sv_get v j of None \<Rightarrow> False
      | Some nd \<Rightarrow> hash_value nd = hv \<and> fst (pair nd) = key)"

definition insert_ready :: "('k, 't) hash_tree \<Rightarrow> nat \<Rightarrow> 'k \<Rightarrow> bool" where
  \<comment> \<open>what \<open>_insert\<close> relies on: the slot handed out is free, there are buckets, and
      either the insert rehashes or the chain of the key's bucket is well formed\<close>
  "insert_ready st slot key \<longleftrightarrow>
     sv_get (nodes st) slot = None \<and> table_size st \<noteq> 0 \<and>
     (load_above_max st \<or>
      (\<exists>xs. chain (nodes st) (table st ! (hasher st key mod table_size st)) xs))"


definition childs_of :: "('k, 't) hash_tree_node sparse_vector \<Rightarrow> nat \<Rightarrow> nat list" where
  "childs_of v j = (case sv_get v j of None \<Rightarrow> [] | Some nd \<Rightarrow> childs nd)"

definition bfs_prefix ::
  "('k, 't) hash_tree_node sparse_vector \<Rightarrow> nat \<Rightarrow> nat list \<Rightarrow> nat \<Rightarrow> bool" where
  \<comment> \<open>\<open>W\<close> is the visitation sequence of a breadth-first walk from \<open>r\<close> whose first
      \<open>k\<close> entries have been expanded\<close>
  "bfs_prefix v r W k \<longleftrightarrow>
     k \<le> length W \<and> W = r # concat (map (childs_of v) (take k W)) \<and>
     distinct W \<and> set W \<subseteq> {j. sv_get v j \<noteq> None} \<and>
     (\<forall>a<k. \<forall>c\<in>set (childs_of v (W ! a)). \<exists>b. a < b \<and> b < length W \<and> W ! b = c)"

subsection \<open>An example\<close>

text \<open>
  Keys are numbers that hash to themselves. Key \<open>1\<close> is the root in slot \<open>0\<close>, key
  \<open>2\<close> its child in slot \<open>1\<close>, keys \<open>3\<close> and \<open>4\<close> the children of \<open>2\<close> in slots
  \<open>2\<close> and \<open>3\<close>.
\<close>

definition example_ops :: "(nat, nat) operation list" where
  "example_ops = [Insert 0 1 10, Insert 1 2 20, Insert_Under 2 3 30 2, Insert_Under 3 4 40 2]"

definition example_tree :: "(nat, nat) hash_tree" where
  "example_tree = projr (run (hash_tree_init id) example_ops)"


text \<open>A root with one child that has seven children: nine inserts grow the table to 16 buckets.\<close>

definition wide_ops :: "(nat, nat) operation list" where
  "wide_ops = [Insert 0 1 10, Insert 1 2 20, Insert_Under 2 3 30 2, Insert_Under 3 4 40 2,
     Insert_Under 4 5 50 2, Insert_Under 5 6 60 2, Insert_Under 6 7 70 2,
     Insert_Under 7 8 80 2, Insert_Under 8 9 90 2]"

definition wide_tree :: "(nat, nat) hash_tree" where
  "wide_tree = projr (run (hash_tree_init id) wide_ops)"

section \<open>Basic facts about the store and the monad\<close>

lemma bind_Inr_iff: "bind m f = Inr y \<longleftrightarrow> (\<exists>x. m = Inr x \<and> f x = Inr y)"
  by (cases m) (simp_all add: bind_def)

lemma bind_Inr [simp]: "bind (Inr x) f = f x"
  by (simp add: bind_def)

lemma bind_Inl [simp]: "bind (Inl e) f = Inl e"
  by (simp add: bind_def)

lemma sv_get_update: "sv_get (v[i := x]) j = (if j = i \<and> i < length v then x else sv_get v j)"
  by (simp add: sv_get_def)

lemma sv_get_emplace: "sv_get (sv_emplace v i x) j = (if j = i then Some x else sv_get v j)"
  by (auto simp: sv_get_def sv_emplace_def nth_append)

lemma sv_get_erase: "sv_get (sv_erase v i) j = (if j = i then None else sv_get v j)"
  by (auto simp: sv_get_def sv_erase_def)

lemma sv_get_Some_length: "sv_get v i = Some x \<Longrightarrow> i < length v"
  by (simp add: sv_get_def split: if_splits)

lemma sv_size_card: "sv_size v = card {j. sv_get v j \<noteq> None}"
proof (induction v rule: rev_induct)
  case Nil
  show ?case by (simp add: sv_size_def sv_get_def)
next
  case (snoc a v)
  have fin: "finite {j. sv_get v j \<noteq> None}"
    by (rule finite_subset [of _ "{..<length v}"]) (auto simp: sv_get_def split: if_splits)
  have notin: "length v \<notin> {j. sv_get v j \<noteq> None}"
    by (simp add: sv_get_def)
  have "{j. sv_get (v @ [a]) j \<noteq> None} =
        (if a = None then {j. sv_get v j \<noteq> None} else insert (length v) {j. sv_get v j \<noteq> None})"
    by (auto simp: sv_get_def nth_append split: if_splits)
  with snoc fin notin show ?case
    by (simp add: sv_size_def)
qed

lemma finite_live: "finite {j. sv_get v j \<noteq> None}"
  by (rule finite_subset [of _ "{..<length v}"]) (auto simp: sv_get_def split: if_splits)

lemma sv_size_0_iff: "sv_size v = 0 \<longleftrightarrow> (\<forall>j. sv_get v j = None)"
  using finite_live [of v] by (auto simp: sv_size_card)

lemma node_at_Inr_iff: "node_at v idx = Inr x \<longleftrightarrow> (\<exists>i. idx = Some i \<and> sv_get v i = Some x)"
  by (auto simp: node_at_def split: option.splits)

lemma modify_Inr_iff:
  "modify v idx f = Inr v' \<longleftrightarrow>
     (\<exists>i x. idx = Some i \<and> sv_get v i = Some x \<and> v' = v[i := Some (f x)])"
  by (auto simp: modify_def split: option.splits)

lemma sv_get_modify:
  "modify v idx f = Inr v' \<Longrightarrow>
     sv_get v' j = (if Some j = idx then map_option f (sv_get v j) else sv_get v j)"
  by (auto simp: modify_Inr_iff sv_get_update dest: sv_get_Some_length split: if_splits)

lemma length_modify: "modify v idx f = Inr v' \<Longrightarrow> length v' = length v"
  by (auto simp: modify_Inr_iff)

section \<open>What the hash-index operations leave unchanged\<close>

lemma tree_part_simps [simp]:
  "pair (tree_part nd) = pair nd" "hash_value (tree_part nd) = hash_value nd"
  "childs (tree_part nd) = childs nd" "parent_index (tree_part nd) = parent_index nd"
  "next_index (tree_part nd) = None"
  "tree_part (nd\<lparr>next_index := x\<rparr>) = tree_part nd"
  "tree_part (nd\<lparr>childs := cs\<rparr>) = (tree_part nd)\<lparr>childs := cs\<rparr>"
  "tree_part (nd\<lparr>parent_index := p\<rparr>) = (tree_part nd)\<lparr>parent_index := p\<rparr>"
  by (simp_all add: tree_part_def)

lemma tree_of_Some_iff: "tree_of v j = Some t \<longleftrightarrow> (\<exists>nd. sv_get v j = Some nd \<and> t = tree_part nd)"
  by (auto simp: tree_of_def)

lemma tree_of_None_iff: "tree_of v j = None \<longleftrightarrow> sv_get v j = None"
  by (simp add: tree_of_def)

lemma tree_of_update:
  "i < length v \<Longrightarrow> tree_of (v[i := x]) = (tree_of v)(i := map_option tree_part x)"
  by (rule ext) (simp add: tree_of_def sv_get_update)

lemma tree_of_modify_next:
  "modify v idx (\<lambda>nd. nd\<lparr>next_index := x\<rparr>) = Inr v' \<Longrightarrow> tree_of v' = tree_of v"
  by (rule ext) (auto simp: tree_of_def sv_get_modify option.map_comp comp_def)

lemma tree_of_modify:
  assumes "modify v idx f = Inr v'" and "\<And>nd. tree_part (f nd) = f (tree_part nd)"
  shows "\<exists>i t. idx = Some i \<and> tree_of v i = Some t \<and> tree_of v' = (tree_of v)(i := Some (f t))"
proof -
  from assms(1) obtain i x where i: "idx = Some i" "sv_get v i = Some x" "v' = v[i := Some (f x)]"
    by (auto simp: modify_Inr_iff)
  then have "i < length v" by (auto dest: sv_get_Some_length)
  with i assms(2) show ?thesis
    by (simp add: tree_of_update) (simp add: tree_of_def)
qed

lemma tree_of_emplace:
  "tree_of (sv_emplace v i x) = (tree_of v)(i := Some (tree_part x))"
  by (rule ext) (simp add: tree_of_def sv_get_emplace)

lemma tree_of_erase: "tree_of (sv_erase v i) = (tree_of v)(i := None)"
  by (rule ext) (simp add: tree_of_def sv_get_erase)

lemma sv_size_tree_of: "sv_size v = card {j. tree_of v j \<noteq> None}"
  by (simp add: sv_size_card tree_of_None_iff)

lemma sv_size_cong: "tree_of v' = tree_of v \<Longrightarrow> sv_size v' = sv_size v"
  by (simp add: sv_size_tree_of)

lemma insert_map_effect:
  assumes "insert_map st b s = Inr st'"
  shows "tree_of (nodes st') = tree_of (nodes st)" "head_index st' = head_index st"
    "hasher st' = hasher st" "table_size st' = table_size st"
    "length (nodes st') = length (nodes st)"
  using assms
  by (auto simp: insert_map_def table_size_def bind_Inr_iff tree_of_modify_next length_modify
      split: if_splits option.splits)

lemma rehash_loop_effect:
  assumes "rehash_loop st is = Inr st'"
  shows "tree_of (nodes st') = tree_of (nodes st) \<and> head_index st' = head_index st \<and>
    hasher st' = hasher st \<and> table_size st' = table_size st \<and>
    length (nodes st') = length (nodes st)"
  using assms
proof (induction "is" arbitrary: st)
  case Nil
  then show ?case by simp
next
  case (Cons i "is")
  from Cons.prems obtain b st1 where
    s1: "insert_map st b i = Inr st1" and
    s2: "rehash_loop st1 is = Inr st'"
    by (auto simp: bind_Inr_iff split: if_splits)
  from Cons.IH [OF s2] insert_map_effect [OF s1] show ?case by simp
qed

lemma sv_get_map: "sv_get (map f v) j = (if j < length v then f (v ! j) else None)"
  by (simp add: sv_get_def)

lemma tree_of_clear_next:
  "tree_of (map (map_option (\<lambda>nd. nd\<lparr>next_index := None\<rparr>)) v) = tree_of v"
  by (rule ext) (auto simp: tree_of_def sv_get_def option.map_comp comp_def)

lemma rehash_effect:
  assumes "rehash st n = Inr st'"
  shows "tree_of (nodes st') = tree_of (nodes st)" "head_index st' = head_index st"
    "hasher st' = hasher st" "table_size st' = n"
    "length (nodes st') = length (nodes st)"
  using rehash_loop_effect [OF assms [unfolded rehash_def Let_def]]
  by (simp_all add: tree_of_clear_next table_size_def)

lemma priv_insert_effect:
  assumes "priv_insert st slot key val = Inr (i, st1)"
  shows "i = slot" "sv_get (nodes st) slot = None"
    "tree_of (nodes st1) = (tree_of (nodes st))(slot := Some (new_node key val (hasher st key)))"
    "head_index st1 = head_index st" "hasher st1 = hasher st"
    "table_size st1 = (if load_above_max st then table_size st * 2 else table_size st)"
proof -
  from assms obtain st0 where
    r: "(if load_above_max st then rehash st (table_size st * 2) else Inr st) = Inr st0"
    and rest: "(let hv = hasher st0 key in
     if sv_get (nodes st0) slot \<noteq> None then Inl Slot_In_Use
     else
       let st2 = st0\<lparr>nodes := sv_emplace (nodes st0) slot (new_node key val hv)\<rparr>
       in if table_size st2 = 0 then Inl Division_By_Zero
          else bind (insert_map st2 (hv mod table_size st2) slot) (\<lambda>st3. Inr (slot, st3))) = Inr (i, st1)"
    unfolding priv_insert_def bind_Inr_iff by blast
  have e0: "tree_of (nodes st0) = tree_of (nodes st)" "head_index st0 = head_index st"
    "hasher st0 = hasher st"
    "table_size st0 = (if load_above_max st then table_size st * 2 else table_size st)"
    using r by (auto split: if_splits dest: rehash_effect)
  define st2 where "st2 = st0\<lparr>nodes := sv_emplace (nodes st0) slot (new_node key val (hasher st0 key))\<rparr>"
  from rest have free: "sv_get (nodes st0) slot = None"
    and im: "insert_map st2 (hasher st0 key mod table_size st2) slot = Inr st1"
    and i: "i = slot"
    by (auto simp: Let_def st2_def bind_Inr_iff split: if_splits)
  note e1 = insert_map_effect [OF im]
  show "i = slot" by (rule i)
  from free e0(1) show "sv_get (nodes st) slot = None"
    by (metis tree_of_None_iff)
  show "tree_of (nodes st1) = (tree_of (nodes st))(slot := Some (new_node key val (hasher st key)))"
    using e1(1) e0 by (simp add: st2_def tree_of_emplace new_node_def tree_part_def)
  show "head_index st1 = head_index st" using e1(2) e0 by (simp add: st2_def)
  show "hasher st1 = hasher st" using e1(3) e0 by (simp add: st2_def)
  show "table_size st1 = (if load_above_max st then table_size st * 2 else table_size st)"
    using e1(4) e0(4) by (simp add: st2_def table_size_def)
qed

section \<open>The tree invariant\<close>

lemma all_tree_of: "(\<forall>t. tree_of v x = Some t \<longrightarrow> Q t) \<longleftrightarrow> (\<forall>nd. sv_get v x = Some nd \<longrightarrow> Q (tree_part nd))"
  by (auto simp: tree_of_def)

lemma ex_tree_of: "(\<exists>t. tree_of v x = Some t \<and> Q t) \<longleftrightarrow> (\<exists>nd. sv_get v x = Some nd \<and> Q (tree_part nd))"
  by (auto simp: tree_of_def)

lemma single_root_alt:
  "single_root st \<longleftrightarrow>
     (\<forall>i t. tree_of (nodes st) i = Some t \<longrightarrow> parent_index t = None \<longrightarrow> head_index st = Some i) \<and>
     ((\<forall>j. tree_of (nodes st) j = None) = (head_index st = None))"
  by (simp add: single_root_def all_tree_of tree_of_None_iff size_ht_def sv_size_0_iff)

lemma links_ok_alt:
  "links_ok st \<longleftrightarrow>
     (\<forall>r. head_index st = Some r \<longrightarrow>
        (\<exists>t. tree_of (nodes st) r = Some t \<and> parent_index t = None)) \<and>
     (\<forall>x t c. tree_of (nodes st) x = Some t \<longrightarrow> c \<in> set (childs t) \<longrightarrow>
        (\<exists>ct. tree_of (nodes st) c = Some ct \<and> parent_index ct = Some x))"
  by (simp add: links_ok_def all_tree_of ex_tree_of)

lemma tree_invD:
  assumes "tree_inv st"
  shows "\<And>i t. tree_of (nodes st) i = Some t \<Longrightarrow> parent_index t = None \<Longrightarrow> head_index st = Some i"
    and "(\<forall>j. tree_of (nodes st) j = None) = (head_index st = None)"
    and "\<And>r. head_index st = Some r \<Longrightarrow> \<exists>t. tree_of (nodes st) r = Some t \<and> parent_index t = None"
    and "\<And>x t c. tree_of (nodes st) x = Some t \<Longrightarrow> c \<in> set (childs t) \<Longrightarrow>
           \<exists>ct. tree_of (nodes st) c = Some ct \<and> parent_index ct = Some x"
  using assms unfolding tree_inv_def single_root_alt links_ok_alt by blast+

lemma tree_invI:
  assumes "\<And>i t. tree_of (nodes st) i = Some t \<Longrightarrow> parent_index t = None \<Longrightarrow> head_index st = Some i"
    and "(\<forall>j. tree_of (nodes st) j = None) = (head_index st = None)"
    and "\<And>r. head_index st = Some r \<Longrightarrow> \<exists>t. tree_of (nodes st) r = Some t \<and> parent_index t = None"
    and "\<And>x t c. tree_of (nodes st) x = Some t \<Longrightarrow> c \<in> set (childs t) \<Longrightarrow>
           \<exists>ct. tree_of (nodes st) c = Some ct \<and> parent_index ct = Some x"
  shows "tree_inv st"
  unfolding tree_inv_def single_root_alt links_ok_alt using assms by blast

lemma tree_inv_add_root:
  assumes "tree_inv st" "head_index st = None" "head_index st' = Some s"
    "parent_index n = None" "childs n = []"
    "tree_of (nodes st') = (tree_of (nodes st))(s := Some n)"
  shows "tree_inv st'"
proof -
  from tree_invD(2) [OF assms(1)] assms(2) have empty: "\<And>j. tree_of (nodes st) j = None"
    by blast
  have T': "\<And>j. tree_of (nodes st') j = (if j = s then Some n else None)"
    by (simp add: assms(6) empty)
  show ?thesis
    by (rule tree_invI) (auto simp: T' assms(3,4,5) split: if_splits)
qed

lemma tree_inv_add_child:
  assumes inv: "tree_inv st" and hd: "head_index st \<noteq> None" "head_index st' = head_index st"
    and free: "tree_of (nodes st) s = None" and n: "parent_index n = None" "childs n = []"
    and T1: "T1 = (tree_of (nodes st))(s := Some n)" "T1 p = Some t"
    and T2: "T2 = T1(p := Some (t\<lparr>childs := childs t @ [s]\<rparr>))" "T2 s = Some x"
    and T3: "tree_of (nodes st') = T2(s := Some (x\<lparr>parent_index := Some p\<rparr>))"
  shows "tree_inv st'"
proof -
  let ?T = "tree_of (nodes st)"
  let ?T' = "tree_of (nodes st')"
  note sr1 = tree_invD(1) [OF inv] and lk1 = tree_invD(3) [OF inv] and lk2 = tree_invD(4) [OF inv]
  from hd obtain r where r: "head_index st = Some r" by auto
  from lk1 [OF r] obtain rt where rt: "?T r = Some rt" "parent_index rt = None" by auto
  from rt free have rs: "r \<noteq> s" by auto
  have tp: "p \<noteq> s \<Longrightarrow> ?T p = Some t" using T1 by simp
  define sn where "sn = x\<lparr>parent_index := Some p\<rparr>"
  have x: "x = (if p = s then n\<lparr>childs := [s]\<rparr> else n)"
    using T1 T2 n by (auto split: if_splits)
  have sn: "parent_index sn = Some p" "childs sn = (if p = s then [s] else [])"
    by (simp_all add: sn_def x n)
  have T': "\<And>j. ?T' j = (if j = s then Some sn
       else if j = p then Some (t\<lparr>childs := childs t @ [s]\<rparr>) else ?T j)"
    by (simp add: T3 T2 T1 sn_def)
  have live: "\<And>c ct. ?T c = Some ct \<Longrightarrow> c \<noteq> s" using free by auto
  show ?thesis
  proof (rule tree_invI)
    fix i u assume a: "?T' i = Some u" "parent_index u = None"
    show "head_index st' = Some i"
    proof (cases "i = s")
      case True with a sn show ?thesis by (simp add: T')
    next
      case False
      show ?thesis
      proof (cases "i = p")
        case True
        with False a have "parent_index t = None" by (auto simp: T')
        with tp False True sr1 [of p t] hd show ?thesis by simp
      next
        case False
        with \<open>i \<noteq> s\<close> a sr1 [of i u] hd show ?thesis by (simp add: T')
      qed
    qed
  next
    have "?T' s \<noteq> None" by (simp add: T')
    with hd show "(\<forall>j. ?T' j = None) = (head_index st' = None)" by auto
  next
    fix r' assume "head_index st' = Some r'"
    with hd r have r': "r' = r" by simp
    show "\<exists>u. ?T' r' = Some u \<and> parent_index u = None"
    proof (cases "r = p")
      case True
      with rs tp rt have "t = rt" by simp
      with True rs rt show ?thesis by (simp add: T' r')
    next
      case False
      with rs rt show ?thesis by (simp add: T' r')
    qed
  next
    fix y u c assume a: "?T' y = Some u" "c \<in> set (childs u)"
    have old: "\<exists>cu. ?T' c = Some cu \<and> parent_index cu = Some y"
      if "?T y = Some w" "c \<in> set (childs w)" for w
    proof -
      from lk2 [OF that] obtain ct where ct: "?T c = Some ct" "parent_index ct = Some y" by auto
      from live [OF ct(1)] have cs: "c \<noteq> s" .
      show ?thesis
      proof (cases "c = p")
        case True
        with cs tp ct have "t = ct" by simp
        with True cs ct show ?thesis by (simp add: T')
      next
        case False
        with cs ct show ?thesis by (simp add: T')
      qed
    qed
    show "\<exists>cu. ?T' c = Some cu \<and> parent_index cu = Some y"
    proof (cases "y = s")
      case True
      with a have "u = sn" by (simp add: T')
      with a sn have "p = s \<and> c = s" by (auto split: if_splits)
      with True sn show ?thesis by (simp add: T')
    next
      case False
      show ?thesis
      proof (cases "y = p")
        case True
        with False a have u: "u = t\<lparr>childs := childs t @ [s]\<rparr>" by (simp add: T')
        with a have "c = s \<or> c \<in> set (childs t)" by auto
        then show ?thesis
        proof
          assume "c = s"
          with True sn show ?thesis by (simp add: T')
        next
          assume "c \<in> set (childs t)"
          with old [of t] tp False True show ?thesis by simp
        qed
      next
        case False
        with \<open>y \<noteq> s\<close> a have "?T y = Some u" by (simp add: T')
        from old [OF this a(2)] show ?thesis .
      qed
    qed
  qed
qed

section \<open>Insert\<close>

lemma bindE:
  assumes "bind m f = Inr y"
  obtains x where "m = Inr x" "f x = Inr y"
  using assms by (auto simp: bind_Inr_iff)

lemma tree_part_new_node [simp]: "tree_part (new_node k v hv) = new_node k v hv"
  by (simp add: tree_part_def new_node_def)

lemma new_node_simps [simp]:
  "pair (new_node k v hv) = (k, v)" "hash_value (new_node k v hv) = hv"
  "childs (new_node k v hv) = []" "parent_index (new_node k v hv) = None"
  "next_index (new_node k v hv) = None"
  by (simp_all add: new_node_def)

lemma link_effect:
  assumes m1: "modify v (Some p) (\<lambda>nd. nd\<lparr>childs := childs nd @ [i]\<rparr>) = Inr v1"
    and m2: "modify v1 (Some i) (\<lambda>nd. nd\<lparr>parent_index := q\<rparr>) = Inr v2"
  shows "\<exists>t x. tree_of v p = Some t \<and>
     ((tree_of v)(p := Some (t\<lparr>childs := childs t @ [i]\<rparr>))) i = Some x \<and>
     tree_of v2 = (tree_of v)(p := Some (t\<lparr>childs := childs t @ [i]\<rparr>), i := Some (x\<lparr>parent_index := q\<rparr>))"
proof -
  from tree_of_modify [OF m1] obtain t where
    t: "tree_of v p = Some t" "tree_of v1 = (tree_of v)(p := Some (t\<lparr>childs := childs t @ [i]\<rparr>))"
    by auto
  from tree_of_modify [OF m2] obtain x where
    x: "tree_of v1 i = Some x" "tree_of v2 = (tree_of v1)(i := Some (x\<lparr>parent_index := q\<rparr>))"
    by auto
  from t x show ?thesis by simp
qed

lemma insert_kv_cases:
  assumes "insert_kv st s k v = Inr st'"
  obtains (root) "head_index st = None" "head_index st' = Some s"
      "tree_of (nodes st') = (tree_of (nodes st))(s := Some (new_node k v (hasher st k)))"
  | (child) h t x where "head_index st = Some h" "head_index st' = Some h"
      "((tree_of (nodes st))(s := Some (new_node k v (hasher st k)))) h = Some t"
      "((tree_of (nodes st))(s := Some (new_node k v (hasher st k)), h := Some (t\<lparr>childs := childs t @ [s]\<rparr>))) s = Some x"
      "tree_of (nodes st') = (tree_of (nodes st))(s := Some (new_node k v (hasher st k)),
           h := Some (t\<lparr>childs := childs t @ [s]\<rparr>), s := Some (x\<lparr>parent_index := Some h\<rparr>))"
proof -
  from assms [unfolded insert_kv_def] obtain ist where
    p: "priv_insert st s k v = Inr ist" and
    rest: "(case ist of (i, st1) \<Rightarrow> case head_index st1 of
       None \<Rightarrow> Inr (st1\<lparr>head_index := Some i\<rparr>)
     | Some h \<Rightarrow>
         bind (modify (nodes st1) (Some h) (\<lambda>nd. nd\<lparr>childs := childs nd @ [i]\<rparr>)) (\<lambda>v.
         bind (modify v (Some i) (\<lambda>nd. nd\<lparr>parent_index := Some h\<rparr>)) (\<lambda>v'.
         Inr (st1\<lparr>nodes := v'\<rparr>)))) = Inr st'"
    by (rule bindE)
  obtain i st1 where ist: "ist = (i, st1)" by (cases ist)
  note e = priv_insert_effect [OF p [unfolded ist]]
  show ?thesis
  proof (cases "head_index st")
    case None
    with rest ist e have "head_index st' = Some s"
      "tree_of (nodes st') = (tree_of (nodes st))(s := Some (new_node k v (hasher st k)))"
      by auto
    with None show ?thesis by (rule root)
  next
    case (Some h)
    with rest ist e obtain v1 v2 where
      m1: "modify (nodes st1) (Some h) (\<lambda>nd. nd\<lparr>childs := childs nd @ [s]\<rparr>) = Inr v1" and
      m2: "modify v1 (Some s) (\<lambda>nd. nd\<lparr>parent_index := Some h\<rparr>) = Inr v2" and
      st': "st' = st1\<lparr>nodes := v2\<rparr>"
      by (auto elim!: bindE)
    from link_effect [OF m1 m2] e(3) obtain t x where
      "((tree_of (nodes st))(s := Some (new_node k v (hasher st k)))) h = Some t"
      "((tree_of (nodes st))(s := Some (new_node k v (hasher st k)), h := Some (t\<lparr>childs := childs t @ [s]\<rparr>))) s = Some x"
      "tree_of v2 = (tree_of (nodes st))(s := Some (new_node k v (hasher st k)),
           h := Some (t\<lparr>childs := childs t @ [s]\<rparr>), s := Some (x\<lparr>parent_index := Some h\<rparr>))"
      by auto
    with Some e(4) st' show ?thesis by (intro child [of h t x]) simp_all
  qed
qed

lemma insert_kv_misc:
  assumes "insert_kv st s k v = Inr st'"
  shows "sv_get (nodes st) s = None" "hasher st' = hasher st"
    "table_size st' = (if load_above_max st then table_size st * 2 else table_size st)"
proof -
  from assms [unfolded insert_kv_def] obtain ist where
    p: "priv_insert st s k v = Inr ist" and
    rest: "(case ist of (i, st1) \<Rightarrow> case head_index st1 of
       None \<Rightarrow> Inr (st1\<lparr>head_index := Some i\<rparr>)
     | Some h \<Rightarrow>
         bind (modify (nodes st1) (Some h) (\<lambda>nd. nd\<lparr>childs := childs nd @ [i]\<rparr>)) (\<lambda>v.
         bind (modify v (Some i) (\<lambda>nd. nd\<lparr>parent_index := Some h\<rparr>)) (\<lambda>v'.
         Inr (st1\<lparr>nodes := v'\<rparr>)))) = Inr st'"
    by (rule bindE)
  obtain i st1 where ist: "ist = (i, st1)" by (cases ist)
  note e = priv_insert_effect [OF p [unfolded ist]]
  from e show "sv_get (nodes st) s = None" by simp
  from rest ist have "hasher st' = hasher st1 \<and> table_size st' = table_size st1"
    by (auto simp: table_size_def split: option.splits elim!: bindE)
  with e show "hasher st' = hasher st"
    "table_size st' = (if load_above_max st then table_size st * 2 else table_size st)"
    by simp_all
qed

lemma insert_kv_tree_inv:
  assumes "insert_kv st s k v = Inr st'" and inv: "tree_inv st"
  shows "tree_inv st'"
  using assms(1)
proof (cases rule: insert_kv_cases)
  case root
  from inv root(1,2) _ _ root(3) show ?thesis
    by (rule tree_inv_add_root) simp_all
next
  case (child h t x)
  have free: "tree_of (nodes st) s = None"
    using insert_kv_misc(1) [OF assms(1)] by (simp add: tree_of_None_iff)
  show ?thesis
    by (rule tree_inv_add_child [OF inv _ _ free _ _ refl child(3) refl child(4) child(5)])
      (simp_all add: child(1,2))
qed

lemma insert_kvp_cases:
  assumes "insert_kvp st s k v parent = Inr st'"
  obtains st1 p t x where
      "priv_insert st s k v = Inr (s, st1)" "index st1 parent = Inr (Some p)"
      "head_index st' = head_index st" "hasher st' = hasher st" "table st' = table st1"
      "tree_of (nodes st) s = None"
      "((tree_of (nodes st))(s := Some (new_node k v (hasher st k)))) p = Some t"
      "((tree_of (nodes st))(s := Some (new_node k v (hasher st k)), p := Some (t\<lparr>childs := childs t @ [s]\<rparr>))) s = Some x"
      "tree_of (nodes st') = (tree_of (nodes st))(s := Some (new_node k v (hasher st k)),
           p := Some (t\<lparr>childs := childs t @ [s]\<rparr>), s := Some (x\<lparr>parent_index := Some p\<rparr>))"
proof -
  from assms [unfolded insert_kvp_def] obtain ist where
    p: "priv_insert st s k v = Inr ist" and
    rest: "(case ist of (i, st1) \<Rightarrow>
     bind (index st1 parent) (\<lambda>p.
     bind (modify (nodes st1) p (\<lambda>nd. nd\<lparr>childs := childs nd @ [i]\<rparr>)) (\<lambda>v.
     bind (modify v (Some i) (\<lambda>nd. nd\<lparr>parent_index := p\<rparr>)) (\<lambda>v'.
     Inr (st1\<lparr>nodes := v'\<rparr>))))) = Inr st'"
    by (rule bindE)
  obtain i st1 where ist: "ist = (i, st1)" by (cases ist)
  note e = priv_insert_effect [OF p [unfolded ist]]
  from rest ist e(1) obtain pidx v1 v2 where
    ix: "index st1 parent = Inr pidx" and
    m1: "modify (nodes st1) pidx (\<lambda>nd. nd\<lparr>childs := childs nd @ [s]\<rparr>) = Inr v1" and
    m2: "modify v1 (Some s) (\<lambda>nd. nd\<lparr>parent_index := pidx\<rparr>) = Inr v2" and
    st': "st' = st1\<lparr>nodes := v2\<rparr>"
    by (auto elim!: bindE)
  from m1 obtain q where q: "pidx = Some q" by (auto simp: modify_Inr_iff)
  from link_effect [OF m1 [unfolded q] m2] e(3) obtain t x where
    "((tree_of (nodes st))(s := Some (new_node k v (hasher st k)))) q = Some t"
    "((tree_of (nodes st))(s := Some (new_node k v (hasher st k)), q := Some (t\<lparr>childs := childs t @ [s]\<rparr>))) s = Some x"
    "tree_of v2 = (tree_of (nodes st))(s := Some (new_node k v (hasher st k)),
           q := Some (t\<lparr>childs := childs t @ [s]\<rparr>), s := Some (x\<lparr>parent_index := Some q\<rparr>))"
    by (auto simp: q)
  moreover have "tree_of (nodes st) s = None" using e(2) by (simp add: tree_of_None_iff)
  ultimately show ?thesis
    using p ist e ix q st' by (intro that [of st1 q t x]) simp_all
qed

lemma insert_kvp_tree_inv:
  assumes ins: "insert_kvp st s k v parent = Inr st'" and inv: "tree_inv st"
    and hd: "head_index st \<noteq> None"
  shows "tree_inv st'"
  using ins
proof (cases rule: insert_kvp_cases)
  case (1 st1 p t x)
  show ?thesis
    by (rule tree_inv_add_child [OF inv hd 1(3) 1(6) _ _ refl 1(7) refl 1(8) 1(9)]) simp_all
qed

section \<open>Reparenting\<close>

lemma remove_child_effect:
  assumes "remove_child v i = Inr v'"
  shows "\<exists>nd q qn. tree_of v i = Some nd \<and> parent_index nd = Some q \<and> tree_of v q = Some qn \<and>
      tree_of v' = (tree_of v)(q := Some (qn\<lparr>childs := removeAll i (childs qn)\<rparr>))"
proof -
  from assms [unfolded remove_child_def] obtain c where c0: "node_at v (Some i) = Inr c"
    and m: "modify v (parent_index c) (\<lambda>nd. nd\<lparr>childs := removeAll i (childs nd)\<rparr>) = Inr v'"
    by (rule bindE)
  from c0 have c: "sv_get v i = Some c" by (simp add: node_at_Inr_iff)
  from tree_of_modify [OF m] obtain q qn where
    "parent_index c = Some q" "tree_of v q = Some qn"
    "tree_of v' = (tree_of v)(q := Some (qn\<lparr>childs := removeAll i (childs qn)\<rparr>))"
    by auto
  with c show ?thesis
    by (intro exI [of _ "tree_part c"] exI [of _ q] exI [of _ qn]) (simp add: tree_of_def)
qed

lemma unlink_effect:
  assumes nd: "sv_get v i = Some nd"
    and v: "(if parent_index nd \<noteq> None then remove_child v i else Inr v) = Inr v1"
  shows "case parent_index nd of None \<Rightarrow> tree_of v1 = tree_of v
      | Some q \<Rightarrow> (\<exists>qn. tree_of v q = Some qn \<and>
           tree_of v1 = (tree_of v)(q := Some (qn\<lparr>childs := removeAll i (childs qn)\<rparr>)))"
proof (cases "parent_index nd")
  case None
  with v show ?thesis by simp
next
  case (Some q)
  with v have "remove_child v i = Inr v1" by simp
  from remove_child_effect [OF this] nd Some show ?thesis
    by (auto simp: tree_of_def)
qed

lemma priv_set_parent_effect:
  assumes "priv_set_parent st idx p pos = Inr st'"
  obtains i np nd T1 pn x where "idx = Some i" "p = Some np" "sv_get (nodes st) i = Some nd"
     "case parent_index nd of None \<Rightarrow> T1 = tree_of (nodes st)
      | Some q \<Rightarrow> (\<exists>qn. tree_of (nodes st) q = Some qn \<and>
           T1 = (tree_of (nodes st))(q := Some (qn\<lparr>childs := removeAll i (childs qn)\<rparr>)))"
     "T1 np = Some pn" "pos \<le> length (childs pn)"
     "(T1(np := Some (pn\<lparr>childs := take pos (childs pn) @ i # drop pos (childs pn)\<rparr>))) i = Some x"
     "tree_of (nodes st') = T1(np := Some (pn\<lparr>childs := take pos (childs pn) @ i # drop pos (childs pn)\<rparr>),
         i := Some (x\<lparr>parent_index := Some np\<rparr>))"
     "head_index st' = head_index st" "hasher st' = hasher st" "table st' = table st"
proof -
  from assms [unfolded priv_set_parent_def] obtain nd where
    nd: "node_at (nodes st) idx = Inr nd" and
    r1: "bind (if parent_index nd \<noteq> None then remove_child (nodes st) (the idx)
           else Inr (nodes st)) (\<lambda>v.
     bind (node_at v p) (\<lambda>pn.
     if length (childs pn) < pos then Inl Invalid_Iterator
     else
       bind (modify v p (\<lambda>x. x\<lparr>childs := take pos (childs x) @ the idx # drop pos (childs x)\<rparr>)) (\<lambda>v1.
       bind (modify v1 idx (\<lambda>x. x\<lparr>parent_index := p\<rparr>)) (\<lambda>v2.
       Inr (st\<lparr>nodes := v2\<rparr>))))) = Inr st'"
    by (rule bindE)
  from nd obtain i where i: "idx = Some i" "sv_get (nodes st) i = Some nd"
    by (auto simp: node_at_Inr_iff)
  from r1 obtain v where
    v: "(if parent_index nd \<noteq> None then remove_child (nodes st) (the idx) else Inr (nodes st)) = Inr v" and
    r2: "bind (node_at v p) (\<lambda>pn.
     if length (childs pn) < pos then Inl Invalid_Iterator
     else
       bind (modify v p (\<lambda>x. x\<lparr>childs := take pos (childs x) @ the idx # drop pos (childs x)\<rparr>)) (\<lambda>v1.
       bind (modify v1 idx (\<lambda>x. x\<lparr>parent_index := p\<rparr>)) (\<lambda>v2.
       Inr (st\<lparr>nodes := v2\<rparr>)))) = Inr st'"
    by (rule bindE)
  from r2 obtain pn where
    pn: "node_at v p = Inr pn" and
    r3: "(if length (childs pn) < pos then Inl Invalid_Iterator
     else
       bind (modify v p (\<lambda>x. x\<lparr>childs := take pos (childs x) @ the idx # drop pos (childs x)\<rparr>)) (\<lambda>v1.
       bind (modify v1 idx (\<lambda>x. x\<lparr>parent_index := p\<rparr>)) (\<lambda>v2.
       Inr (st\<lparr>nodes := v2\<rparr>)))) = Inr st'"
    by (rule bindE)
  from r3 have pos: "pos \<le> length (childs pn)" by (simp split: if_splits)
  with r3 i obtain v1 v2 where
    v1: "modify v p (\<lambda>x. x\<lparr>childs := take pos (childs x) @ i # drop pos (childs x)\<rparr>) = Inr v1" and
    v2: "modify v1 (Some i) (\<lambda>x. x\<lparr>parent_index := p\<rparr>) = Inr v2" and
    st': "st' = st\<lparr>nodes := v2\<rparr>"
    by (auto elim!: bindE)
  from pn obtain np where np: "p = Some np" "sv_get v np = Some pn"
    by (auto simp: node_at_Inr_iff)
  note v' = v [unfolded i(1) option.sel]
  note T1 = unlink_effect [OF i(2) v']
  from tree_of_modify [OF v1] np
  have e1: "tree_of v1 = (tree_of v)(np := Some ((tree_part pn)\<lparr>childs := take pos (childs pn) @ i # drop pos (childs pn)\<rparr>))"
    by (auto simp: tree_of_def)
  from tree_of_modify [OF v2] np
  obtain x where e2: "tree_of v1 i = Some x" "tree_of v2 = (tree_of v1)(i := Some (x\<lparr>parent_index := Some np\<rparr>))"
    by auto
  have pn': "tree_of v np = Some (tree_part pn)" using np by (simp add: tree_of_def)
  show ?thesis
    by (rule that [of i np nd "tree_of v" "tree_part pn" x])
      (use i np T1 pos e1 e2 st' pn' in \<open>simp_all\<close>)
qed

lemma tree_inv_reparent:
  fixes T1 :: "nat \<Rightarrow> ('k, 't) hash_tree_node option" and st :: "('k, 't) hash_tree"
  assumes inv: "tree_inv st" and hd: "head_index st' = head_index st"
    and notroot: "head_index st \<noteq> Some i"
    and nd: "tree_of (nodes st) i = Some nd"
    and T1: "case parent_index nd of None \<Rightarrow> T1 = tree_of (nodes st)
      | Some q \<Rightarrow> (\<exists>qn. tree_of (nodes st) q = Some qn \<and>
           T1 = (tree_of (nodes st))(q := Some (qn\<lparr>childs := removeAll i (childs qn)\<rparr>)))"
    and pn: "T1 np = Some pn"
    and x: "(T1(np := Some (pn\<lparr>childs := take pos (childs pn) @ i # drop pos (childs pn)\<rparr>))) i = Some x"
    and T3: "tree_of (nodes st') = T1(np := Some (pn\<lparr>childs := take pos (childs pn) @ i # drop pos (childs pn)\<rparr>),
         i := Some (x\<lparr>parent_index := Some np\<rparr>))"
  shows "tree_inv st'"
proof -
  let ?T = "tree_of (nodes st)"
  let ?T' = "tree_of (nodes st')"
  let ?cs = "take pos (childs pn) @ i # drop pos (childs pn)"
  note sr1 = tree_invD(1) [OF inv] and sr2 = tree_invD(2) [OF inv]
    and lk1 = tree_invD(3) [OF inv] and lk2 = tree_invD(4) [OF inv]
  from sr1 [OF nd] notroot obtain q where q: "parent_index nd = Some q" by auto
  with T1 obtain qn where qn: "?T q = Some qn"
    and T1': "T1 = ?T(q := Some (qn\<lparr>childs := removeAll i (childs qn)\<rparr>))" by auto
  have T1_old: "\<exists>w. ?T j = Some w \<and> parent_index u = parent_index w \<and>
      set (childs u) \<subseteq> set (childs w) - {i}" if "T1 j = Some u" for j u
  proof (cases "j = q")
    case True
    with that qn show ?thesis by (auto simp: T1')
  next
    case False
    with that have u: "?T j = Some u" by (simp add: T1')
    have "i \<notin> set (childs u)"
    proof
      assume "i \<in> set (childs u)"
      from lk2 [OF u this] nd q False show False by simp
    qed
    with u show ?thesis by auto
  qed
  have T1_live: "\<exists>u. T1 j = Some u \<and> parent_index u = parent_index w" if "?T j = Some w" for j w
    using that qn by (cases "j = q") (auto simp: T1')
  have G: "c \<noteq> i \<and> (\<exists>cw. T1 c = Some cw \<and> parent_index cw = Some y)"
    if "T1 y = Some w" "c \<in> set (childs w)" for y w c
  proof -
    from T1_old [OF that(1)] obtain w0 where w0: "?T y = Some w0"
      "set (childs w) \<subseteq> set (childs w0) - {i}" by auto
    with that(2) have c: "c \<in> set (childs w0)" "c \<noteq> i" by auto
    from lk2 [OF w0(1) c(1)] obtain ct where "?T c = Some ct" "parent_index ct = Some y" by auto
    with T1_live [of c ct] c(2) show ?thesis by auto
  qed
  have T': "\<And>j. ?T' j = (if j = i then Some (x\<lparr>parent_index := Some np\<rparr>)
       else if j = np then Some (pn\<lparr>childs := ?cs\<rparr>) else T1 j)"
    by (simp add: T3)
  have xc: "x = (if i = np then pn\<lparr>childs := ?cs\<rparr> else x) \<and> (i \<noteq> np \<longrightarrow> T1 i = Some x)"
    using x by (auto split: if_splits)
  have G': "\<exists>cu. ?T' c = Some cu \<and> parent_index cu = Some y"
    if "T1 y = Some w" "c \<in> set (childs w)" for y w c
  proof -
    from G [OF that] obtain cw where c: "c \<noteq> i" "T1 c = Some cw" "parent_index cw = Some y" by auto
    show ?thesis
    proof (cases "c = np")
      case True
      with c pn have "pn = cw" by simp
      with True c show ?thesis by (simp add: T')
    next
      case False
      with c show ?thesis by (simp add: T')
    qed
  qed
  have self: "\<exists>cu. ?T' i = Some cu \<and> parent_index cu = Some np"
    by (simp add: T')
  have in_cs: "c = i \<or> c \<in> set (childs pn)" if "c \<in> set ?cs" for c
    using that by (auto dest: in_set_takeD in_set_dropD)
  show ?thesis
  proof (rule tree_invI)
    fix j u assume a: "?T' j = Some u" "parent_index u = None"
    from a have ji: "j \<noteq> i" by (auto simp: T')
    show "head_index st' = Some j"
    proof (cases "j = np")
      case True
      with ji a have "parent_index pn = None" by (auto simp: T')
      with T1_old [OF pn] obtain w where "?T np = Some w" "parent_index w = None" by auto
      from sr1 [OF this] True hd show ?thesis by simp
    next
      case False
      with ji a have "T1 j = Some u" by (simp add: T')
      from T1_old [OF this] a(2) obtain w where "?T j = Some w" "parent_index w = None" by auto
      from sr1 [OF this] hd show ?thesis by simp
    qed
  next
    have "?T' i \<noteq> None" by (simp add: T')
    moreover from nd sr2 have "head_index st \<noteq> None" by auto
    ultimately show "(\<forall>j. ?T' j = None) = (head_index st' = None)" using hd by auto
  next
    fix r assume "head_index st' = Some r"
    with hd have r: "head_index st = Some r" by simp
    with notroot have ri: "r \<noteq> i" by auto
    from lk1 [OF r] obtain rt where "?T r = Some rt" "parent_index rt = None" by auto
    from T1_live [OF this(1)] this(2) obtain u where u: "T1 r = Some u" "parent_index u = None" by auto
    show "\<exists>u. ?T' r = Some u \<and> parent_index u = None"
    proof (cases "r = np")
      case True
      with u pn have "pn = u" by simp
      with True ri u show ?thesis by (simp add: T')
    next
      case False
      with ri u show ?thesis by (simp add: T')
    qed
  next
    fix y u c assume a: "?T' y = Some u" "c \<in> set (childs u)"
    show "\<exists>cu. ?T' c = Some cu \<and> parent_index cu = Some y"
    proof (cases "y = np")
      case True
      have "childs u = ?cs"
      proof (cases "y = i")
        case True
        with a \<open>y = np\<close> xc show ?thesis by (auto simp: T')
      next
        case False
        with a True show ?thesis by (auto simp: T')
      qed
      with a(2) in_cs have "c = i \<or> c \<in> set (childs pn)" by simp
      then show ?thesis
      proof
        assume "c = i" with self True show ?thesis by simp
      next
        assume "c \<in> set (childs pn)"
        from G' [OF pn this] True show ?thesis by simp
      qed
    next
      case False
      have "\<exists>w. T1 y = Some w \<and> childs u = childs w"
      proof (cases "y = i")
        case True
        with a False xc show ?thesis by (auto simp: T')
      next
        case False
        with a \<open>y \<noteq> np\<close> show ?thesis by (simp add: T')
      qed
      then obtain w where "T1 y = Some w" "childs u = childs w" by auto
      with G' [of y w c] a(2) show ?thesis by simp
    qed
  qed
qed

lemma set_parent_tree_inv:
  assumes sp: "set_parent st key new_parent = Inr st'" and inv: "tree_inv st"
    and notroot: "index st key \<noteq> Inr (head_index st)"
  shows "tree_inv st'"
proof -
  from sp [unfolded set_parent_def] obtain idx where
    idx: "index st key = Inr idx" and
    r1: "bind (index st new_parent) (\<lambda>p.
     bind (node_at (nodes st) p) (\<lambda>pn.
     priv_set_parent st idx p (length (childs pn)))) = Inr st'"
    by (rule bindE)
  from r1 obtain p pos where psp: "priv_set_parent st idx p pos = Inr st'"
    by (auto elim!: bindE)
  from psp show ?thesis
  proof (cases rule: priv_set_parent_effect)
    case (1 i np nd T1 pn x)
    from idx notroot 1(1) have nr: "head_index st \<noteq> Some i" by auto
    from 1(3) have nd: "tree_of (nodes st) i = Some (tree_part nd)" by (simp add: tree_of_def)
    from 1(4) have T1: "case parent_index (tree_part nd) of None \<Rightarrow> T1 = tree_of (nodes st)
      | Some q \<Rightarrow> (\<exists>qn. tree_of (nodes st) q = Some qn \<and>
           T1 = (tree_of (nodes st))(q := Some (qn\<lparr>childs := removeAll i (childs qn)\<rparr>)))"
      by simp
    show ?thesis
      by (rule tree_inv_reparent [OF inv 1(9) nr nd T1 1(5) 1(7) 1(8)])
  qed
qed

section \<open>Erase\<close>

lemma child_rel_erase: "child_rel (sv_erase v f) = {(x, c). (x, c) \<in> child_rel v \<and> x \<noteq> f}"
  by (auto simp: child_rel_def sv_get_erase split: if_splits)

lemma reach_erase:
  assumes nd: "sv_get v f = Some nd"
  shows "(child_rel v)\<^sup>* `` set (f # q) =
         insert f ((child_rel (sv_erase v f))\<^sup>* `` set (q @ childs nd))"
    (is "?L = insert f ?R")
proof (intro equalityI subsetI)
  fix x assume "x \<in> ?L"
  then obtain y where y: "y \<in> set (f # q)" "(y, x) \<in> (child_rel v)\<^sup>*" by auto
  from y(2) y(1) show "x \<in> insert f ?R"
  proof (induction rule: rtrancl_induct)
    case base
    then show ?case by auto
  next
    case (step z x)
    from step.IH [OF step.prems] have "z = f \<or> z \<in> ?R" by simp
    then show ?case
    proof
      assume "z = f"
      with step.hyps(2) nd have "x \<in> set (childs nd)" by (auto simp: child_rel_def)
      then show ?thesis by auto
    next
      assume z: "z \<in> ?R"
      show ?thesis
      proof (cases "z = f")
        case True
        with step.hyps(2) nd have "x \<in> set (childs nd)" by (auto simp: child_rel_def)
        then show ?thesis by auto
      next
        case False
        with step.hyps(2) have "(z, x) \<in> child_rel (sv_erase v f)" by (simp add: child_rel_erase)
        with z have "x \<in> ?R" by (auto intro: rtrancl_into_rtrancl)
        then show ?thesis by simp
      qed
    qed
  qed
next
  fix x assume "x \<in> insert f ?R"
  then show "x \<in> ?L"
  proof
    assume "x = f" then show ?thesis by auto
  next
    assume "x \<in> ?R"
    then obtain y where y: "y \<in> set (q @ childs nd)" "(y, x) \<in> (child_rel (sv_erase v f))\<^sup>*" by auto
    have "child_rel (sv_erase v f) \<subseteq> child_rel v" by (auto simp: child_rel_erase)
    from rtrancl_mono [OF this] y(2) have yx: "(y, x) \<in> (child_rel v)\<^sup>*" by auto
    from y(1) have "y \<in> set q \<or> y \<in> set (childs nd)" by auto
    then show ?thesis
    proof
      assume "y \<in> set q" with yx show ?thesis by auto
    next
      assume "y \<in> set (childs nd)"
      with nd have "(f, y) \<in> child_rel v" by (auto simp: child_rel_def)
      with yx have "(f, x) \<in> (child_rel v)\<^sup>*" by (auto intro: converse_rtrancl_into_rtrancl)
      then show ?thesis by auto
    qed
  qed
qed

lemma sv_size_erase_live:
  assumes "sv_get v f = Some nd"
  shows "sv_size v = Suc (sv_size (sv_erase v f))"
proof -
  have eq: "{j. sv_get v j \<noteq> None} = insert f {j. sv_get (sv_erase v f) j \<noteq> None}"
    using assms by (auto simp: sv_get_erase)
  have notin: "f \<notin> {j. sv_get (sv_erase v f) j \<noteq> None}" by (simp add: sv_get_erase)
  show ?thesis
    unfolding sv_size_card eq by (rule card_insert_disjoint [OF finite_live notin])
qed

lemma erase_loop_effect:
  assumes "erase_loop v q = Inr v'"
  shows "(child_rel v)\<^sup>* `` set q \<subseteq> {j. sv_get v j \<noteq> None} \<and>
    (\<forall>j. sv_get v' j = (if j \<in> (child_rel v)\<^sup>* `` set q then None else sv_get v j)) \<and>
    sv_size v' + card ((child_rel v)\<^sup>* `` set q) = sv_size v \<and> length v' = length v"
  using assms
proof (induction v q arbitrary: v' rule: erase_loop.induct)
  case (1 v)
  then show ?case by simp
next
  case (2 v f q)
  from "2.prems" obtain nd where nd: "sv_get v f = Some nd"
    and rest: "erase_loop (sv_erase v f) (q @ childs nd) = Inr v'"
    by (auto split: option.splits)
  let ?v1 = "sv_erase v f"
  let ?R1 = "(child_rel ?v1)\<^sup>* `` set (q @ childs nd)"
  from "2.IH" [OF nd rest] have
    ih1: "?R1 \<subseteq> {j. sv_get ?v1 j \<noteq> None}" and
    ih2: "\<And>j. sv_get v' j = (if j \<in> ?R1 then None else sv_get ?v1 j)" and
    ih3: "sv_size v' + card ?R1 = sv_size ?v1" and
    ih4: "length v' = length ?v1"
    by blast+
  note R = reach_erase [OF nd, of q]
  from ih1 have fR1: "f \<notin> ?R1" by (auto simp: sv_get_erase)
  from ih1 have fin: "finite ?R1" by (rule finite_subset) (rule finite_live)
  have c1: "(child_rel v)\<^sup>* `` set (f # q) \<subseteq> {j. sv_get v j \<noteq> None}"
    unfolding R using ih1 nd by (auto simp: sv_get_erase split: if_splits)
  have c2: "\<forall>j. sv_get v' j = (if j \<in> (child_rel v)\<^sup>* `` set (f # q) then None else sv_get v j)"
    unfolding R using ih2 by (auto simp: sv_get_erase)
  have c3: "sv_size v' + card ((child_rel v)\<^sup>* `` set (f # q)) = sv_size v"
    unfolding R using ih3 fR1 fin sv_size_erase_live [OF nd] by simp
  have c4: "length v' = length v" using ih4 by (simp add: sv_erase_def)
  from c1 c2 c3 c4 show ?case by blast
qed

lemma child_rel_tree_of:
  "child_rel v = {(x, c). \<exists>t. tree_of v x = Some t \<and> c \<in> set (childs t)}"
  by (simp add: child_rel_def ex_tree_of)

lemma reach_without_back_edge: "(E - {(q, i)})\<^sup>* `` {i} = E\<^sup>* `` {i}"
proof (intro equalityI subsetI)
  fix x assume "x \<in> (E - {(q, i)})\<^sup>* `` {i}"
  then have "(i, x) \<in> (E - {(q, i)})\<^sup>*" by simp
  with rtrancl_mono [of "E - {(q, i)}" E] show "x \<in> E\<^sup>* `` {i}" by auto
next
  fix x assume "x \<in> E\<^sup>* `` {i}"
  then have "(i, x) \<in> E\<^sup>*" by simp
  then have "(i, x) \<in> (E - {(q, i)})\<^sup>*"
  proof (induction rule: rtrancl_induct)
    case base
    show ?case by simp
  next
    case (step z x)
    show ?case
    proof (cases "(z, x) = (q, i)")
      case True
      then show ?thesis by simp
    next
      case False
      with step.hyps(2) have "(z, x) \<in> E - {(q, i)}" by simp
      with step.IH show ?thesis by (rule rtrancl_into_rtrancl)
    qed
  qed
  then show "x \<in> (E - {(q, i)})\<^sup>* `` {i}" by simp
qed

lemma unlink_subtree:
  assumes nd: "sv_get v i = Some nd"
    and v: "(if parent_index nd \<noteq> None then remove_child v i else Inr v) = Inr v1"
  shows "subtree v1 i = subtree v i"
proof (cases "parent_index nd")
  case None
  with v show ?thesis by simp
next
  case (Some q)
  with unlink_effect [OF nd v] obtain qn where qn: "tree_of v q = Some qn"
    "tree_of v1 = (tree_of v)(q := Some (qn\<lparr>childs := removeAll i (childs qn)\<rparr>))" by auto
  have "child_rel v1 = child_rel v - {(q, i)}"
    unfolding child_rel_tree_of qn(2) using qn(1) by (auto split: if_splits)
  then show ?thesis by (simp add: subtree_def reach_without_back_edge)
qed

lemma tree_inv_clear: "tree_inv (clear st)"
  by (rule tree_invI) (simp_all add: clear_def tree_of_def sv_get_def)

lemma erase_cases:
  assumes "erase st key = Inr st'"
  obtains (root) "index st key = Inr (head_index st)" "st' = clear st"
  | (sub) i nd v v' where
      "index st key = Inr (Some i)" "head_index st \<noteq> Some i" "sv_get (nodes st) i = Some nd"
      "(if parent_index nd \<noteq> None then remove_child (nodes st) i else Inr (nodes st)) = Inr v"
      "erase_loop v [i] = Inr v'"
      "tree_of (nodes st') = tree_of v'" "head_index st' = head_index st" "hasher st' = hasher st"
      "table_size st' =
         (if load_below_min (st\<lparr>nodes := v'\<rparr>) then table_size st div 2 else table_size st)"
proof -
  from assms [unfolded erase_def] obtain idx where
    idx: "index st key = Inr idx" and
    r1: "(if idx = head_index st then Inr (clear st)
     else
       bind (node_at (nodes st) idx) (\<lambda>nd.
       bind (if parent_index nd \<noteq> None then remove_child (nodes st) (the idx)
             else Inr (nodes st)) (\<lambda>v.
       bind (erase_loop v [the idx]) (\<lambda>v'.
       let st1 = st\<lparr>nodes := v'\<rparr>
       in if load_below_min st1 then rehash st1 (table_size st1 div 2) else Inr st1)))) = Inr st'"
    by (rule bindE)
  show ?thesis
  proof (cases "idx = head_index st")
    case True
    with r1 idx show ?thesis by (intro root) simp_all
  next
    case False
    with r1 obtain nd where
      nd: "node_at (nodes st) idx = Inr nd" and
      r2: "bind (if parent_index nd \<noteq> None then remove_child (nodes st) (the idx)
             else Inr (nodes st)) (\<lambda>v.
       bind (erase_loop v [the idx]) (\<lambda>v'.
       let st1 = st\<lparr>nodes := v'\<rparr>
       in if load_below_min st1 then rehash st1 (table_size st1 div 2) else Inr st1)) = Inr st'"
      by (auto elim!: bindE)
    from nd obtain i where i: "idx = Some i" "sv_get (nodes st) i = Some nd"
      by (auto simp: node_at_Inr_iff)
    from r2 [unfolded i(1) option.sel] obtain v where
      v: "(if parent_index nd \<noteq> None then remove_child (nodes st) i else Inr (nodes st)) = Inr v" and
      r3: "bind (erase_loop v [i]) (\<lambda>v'.
       let st1 = st\<lparr>nodes := v'\<rparr>
       in if load_below_min st1 then rehash st1 (table_size st1 div 2) else Inr st1) = Inr st'"
      by (rule bindE)
    from r3 obtain v' where
      v': "erase_loop v [i] = Inr v'" and
      r4: "(let st1 = st\<lparr>nodes := v'\<rparr>
       in if load_below_min st1 then rehash st1 (table_size st1 div 2) else Inr st1) = Inr st'"
      by (rule bindE)
    have e: "tree_of (nodes st') = tree_of v' \<and> head_index st' = head_index st \<and>
      hasher st' = hasher st \<and>
      table_size st' =
         (if load_below_min (st\<lparr>nodes := v'\<rparr>) then table_size st div 2 else table_size st)"
    proof (cases "load_below_min (st\<lparr>nodes := v'\<rparr>)")
      case True
      with r4 have "rehash (st\<lparr>nodes := v'\<rparr>) (table_size (st\<lparr>nodes := v'\<rparr>) div 2) = Inr st'"
        by (simp add: Let_def)
      from rehash_effect [OF this] True show ?thesis by (simp add: table_size_def)
    next
      case False
      with r4 show ?thesis by (auto simp: Let_def table_size_def)
    qed
    from idx i False have "index st key = Inr (Some i)" "head_index st \<noteq> Some i" by auto
    with i(2) v v' e show ?thesis by (intro sub [of i nd v v']) simp_all
  qed
qed

lemma subtree_last_step:
  assumes "x \<in> subtree v i" "x \<noteq> i"
  shows "\<exists>z. z \<in> subtree v i \<and> (z, x) \<in> child_rel v"
proof -
  from assms(1) have "(i, x) \<in> (child_rel v)\<^sup>*" by (simp add: subtree_def)
  then show ?thesis using assms(2)
    by (cases rule: rtranclE) (auto simp: subtree_def)
qed

lemma erase_sub_tree_of:
  assumes nd: "sv_get V i = Some nd"
    and v: "(if parent_index nd \<noteq> None then remove_child V i else Inr V) = Inr v"
    and v': "erase_loop v [i] = Inr v'"
  shows "subtree V i \<subseteq> {j. sv_get V j \<noteq> None}"
    and "\<And>j. j \<in> subtree V i \<Longrightarrow> tree_of v' j = None"
    and "\<And>j. j \<notin> subtree V i \<Longrightarrow> parent_index nd \<noteq> Some j \<Longrightarrow> tree_of v' j = tree_of V j"
    and "\<And>j. j \<notin> subtree V i \<Longrightarrow> parent_index nd = Some j \<Longrightarrow>
           \<exists>t. tree_of V j = Some t \<and> tree_of v' j = Some (t\<lparr>childs := removeAll i (childs t)\<rparr>)"
    and "sv_size v' + card (subtree V i) = sv_size V"
proof -
  note S = unlink_subtree [OF nd v]
  from erase_loop_effect [OF v'] have
    e1: "subtree v i \<subseteq> {j. sv_get v j \<noteq> None}" and
    e2: "\<And>j. sv_get v' j = (if j \<in> subtree v i then None else sv_get v j)" and
    e3: "sv_size v' + card (subtree v i) = sv_size v"
    by (simp_all add: subtree_def)
  note u = unlink_effect [OF nd v]
  have live: "(tree_of v j = None) = (tree_of V j = None)" for j
    using u by (cases "parent_index nd") (auto split: if_splits)
  then have live': "(sv_get v j = None) = (sv_get V j = None)" for j
    by (simp add: tree_of_None_iff)
  have t': "tree_of v' j = (if j \<in> subtree V i then None else tree_of v j)" for j
    using e2 [of j] by (simp add: tree_of_def S)
  from e1 show "subtree V i \<subseteq> {j. sv_get V j \<noteq> None}"
    by (auto simp: S live')
  show "tree_of v' j = None" if "j \<in> subtree V i" for j
    using that by (simp add: t')
  show "tree_of v' j = tree_of V j" if "j \<notin> subtree V i" "parent_index nd \<noteq> Some j" for j
    using that u by (cases "parent_index nd") (auto simp: t')
  show "\<exists>t. tree_of V j = Some t \<and> tree_of v' j = Some (t\<lparr>childs := removeAll i (childs t)\<rparr>)"
    if "j \<notin> subtree V i" "parent_index nd = Some j" for j
    using that u by (auto simp: t')
  have "sv_size v = sv_size V"
    unfolding sv_size_card by (simp add: live')
  with e3 show "sv_size v' + card (subtree V i) = sv_size V" by (simp add: S)
qed

lemma erase_tree_inv:
  assumes er: "erase st key = Inr st'" and inv: "tree_inv st"
  shows "tree_inv st'"
  using er
proof (cases rule: erase_cases)
  case root
  then show ?thesis by (simp add: tree_inv_clear)
next
  case (sub i nd v v')
  let ?T = "tree_of (nodes st)"
  let ?T' = "tree_of (nodes st')"
  let ?S = "subtree (nodes st) i"
  note sr1 = tree_invD(1) [OF inv] and sr2 = tree_invD(2) [OF inv]
    and lk1 = tree_invD(3) [OF inv] and lk2 = tree_invD(4) [OF inv]
  note e = erase_sub_tree_of [OF sub(3,4,5)]
  have ndT: "?T i = Some (tree_part nd)" using sub(3) by (simp add: tree_of_def)
  have gone: "?T' j = None" if "j \<in> ?S" for j using that e(2) sub(6) by simp
  have kept: "\<exists>w. ?T j = Some w \<and> parent_index u = parent_index w \<and>
      set (childs u) \<subseteq> set (childs w) \<and> (parent_index nd = Some j \<longrightarrow> i \<notin> set (childs u))"
    if "?T' j = Some u" for j u
  proof -
    from that gone have nS: "j \<notin> ?S" by fastforce
    show ?thesis
    proof (cases "parent_index nd = Some j")
      case True
      from e(4) [OF nS True] that sub(6) show ?thesis by auto
    next
      case False
      from e(3) [OF nS False] that sub(6) show ?thesis by (simp add: False)
    qed
  qed
  have stays: "\<exists>u. ?T' j = Some u \<and> parent_index u = parent_index w"
    if "?T j = Some w" "j \<notin> ?S" for j w
  proof (cases "parent_index nd = Some j")
    case True
    from e(4) [OF that(2) True] that(1) sub(6) show ?thesis by auto
  next
    case False
    from e(3) [OF that(2) False] that(1) sub(6) show ?thesis by simp
  qed
  have child_in: "\<exists>z t. z \<in> ?S \<and> ?T z = Some t \<and> c \<in> set (childs t)" if "c \<in> ?S" "c \<noteq> i" for c
    using subtree_last_step [OF that] by (auto simp: child_rel_tree_of)
  from ndT sr2 obtain r where r: "head_index st = Some r" by auto
  from lk1 [OF r] obtain rt where rt: "?T r = Some rt" "parent_index rt = None" by auto
  have rS: "r \<notin> ?S"
  proof
    assume "r \<in> ?S"
    moreover from r sub(2) have "r \<noteq> i" by auto
    ultimately obtain z t where "?T z = Some t" "r \<in> set (childs t)" using child_in by blast
    from lk2 [OF this] rt show False by simp
  qed
  show ?thesis
  proof (rule tree_invI)
    fix j u assume a: "?T' j = Some u" "parent_index u = None"
    from kept [OF a(1)] a(2) obtain w where "?T j = Some w" "parent_index w = None" by auto
    from sr1 [OF this] sub(7) show "head_index st' = Some j" by simp
  next
    from stays [OF rt(1) rS] have "?T' r \<noteq> None" by auto
    with r sub(7) show "(\<forall>j. ?T' j = None) = (head_index st' = None)" by auto
  next
    fix r' assume "head_index st' = Some r'"
    with r sub(7) have "r' = r" by simp
    with stays [OF rt(1) rS] rt(2) show "\<exists>u. ?T' r' = Some u \<and> parent_index u = None" by auto
  next
    fix y u c assume a: "?T' y = Some u" "c \<in> set (childs u)"
    from a(1) gone have yS: "y \<notin> ?S" by fastforce
    from kept [OF a(1)] obtain w where w: "?T y = Some w" "set (childs u) \<subseteq> set (childs w)"
      "parent_index nd = Some y \<longrightarrow> i \<notin> set (childs u)" by auto
    from w(2) a(2) have cw: "c \<in> set (childs w)" by auto
    from lk2 [OF w(1) cw] obtain ct where ct: "?T c = Some ct" "parent_index ct = Some y" by auto
    have cS: "c \<notin> ?S"
    proof
      assume cS: "c \<in> ?S"
      show False
      proof (cases "c = i")
        case True
        with ct ndT have "parent_index (tree_part nd) = Some y" by auto
        then have "parent_index nd = Some y" by simp
        with w(3) a(2) True show False by simp
      next
        case False
        from child_in [OF cS False] obtain z t where z: "z \<in> ?S" "?T z = Some t" "c \<in> set (childs t)"
          by blast
        from lk2 [OF z(2,3)] ct have "z = y" by simp
        with z(1) yS show False by simp
      qed
    qed
    from stays [OF ct(1) cS] ct(2) show "\<exists>cu. ?T' c = Some cu \<and> parent_index cu = Some y" by auto
  qed
qed

lemma tree_inv_init: "tree_inv (hash_tree_init h)"
  by (rule tree_invI) (simp_all add: hash_tree_init_def tree_of_def sv_get_def)

lemma apply_op_tree_inv:
  assumes "apply_op st op = Inr st'" "tree_inv st" "guarded st op"
  shows "tree_inv st'"
  using assms
  by (cases op) (auto intro: insert_kv_tree_inv insert_kvp_tree_inv erase_tree_inv set_parent_tree_inv)

lemma run_tree_inv:
  assumes "run st ops = Inr st'" "tree_inv st" "guarded_run st ops"
  shows "tree_inv st'"
  using assms
proof (induction ops arbitrary: st)
  case Nil
  then show ?case by simp
next
  case (Cons op ops)
  from Cons.prems(1) obtain st1 where
    s1: "apply_op st op = Inr st1" and s2: "run st1 ops = Inr st'"
    by (auto elim!: bindE)
  from Cons.prems(3) s1 have g: "guarded st op" "guarded_run st1 ops" by simp_all
  from apply_op_tree_inv [OF s1 Cons.prems(2) g(1)] have "tree_inv st1" .
  from Cons.IH [OF s2 this g(2)] show ?case .
qed

section \<open>The example\<close>

lemma Inr_projr: "\<not> isl m \<Longrightarrow> m = Inr (projr m)"
  by (cases m) simp_all

lemma run_example: "run (hash_tree_init id) example_ops = Inr example_tree"
proof -
  have "\<not> isl (run (hash_tree_init id) example_ops)" by code_simp
  then show ?thesis unfolding example_tree_def by (rule Inr_projr)
qed

lemma tree_inv_example: "tree_inv example_tree"
proof -
  have "guarded_run (hash_tree_init id) example_ops" by code_simp
  with run_example tree_inv_init show ?thesis by (rule run_tree_inv)
qed

lemma map_sum_Inr_iff: "map_sum f g m = Inr y \<longleftrightarrow> (\<exists>x. m = Inr x \<and> g x = y)"
  by (cases m) auto

lemma sv_size_fun_upd:
  assumes "tree_of v' = (tree_of v)(s := Some n)" "tree_of v s = None"
  shows "sv_size v' = Suc (sv_size v)"
proof -
  have eq: "{j. tree_of v' j \<noteq> None} = insert s {j. tree_of v j \<noteq> None}"
    using assms by auto
  have fin: "finite {j. tree_of v j \<noteq> None}" using finite_live [of v] by (simp add: tree_of_None_iff)
  have notin: "s \<notin> {j. tree_of v j \<noteq> None}" using assms(2) by simp
  show ?thesis unfolding sv_size_tree_of eq by (rule card_insert_disjoint [OF fin notin])
qed


section \<open>Hash chains and duplicate keys\<close>

lemma index_walk_found:
  "index_walk n v hv key i0 = Inr (Some i) \<Longrightarrow>
     \<exists>nd. sv_get v i = Some nd \<and> hash_value nd = hv \<and> fst (pair nd) = key"
proof (induction n arbitrary: i0)
  case 0
  then show ?case by simp
next
  case (Suc n)
  from Suc.prems obtain nd where nd: "sv_get v i0 = Some nd"
    by (auto split: option.splits)
  show ?case
  proof (cases "hash_value nd = hv \<and> fst (pair nd) = key")
    case True
    with Suc.prems nd have "i = i0" by (auto split: option.splits)
    with nd True show ?thesis by simp
  next
    case False
    with Suc.prems nd obtain j where "next_index nd = Some j" "index_walk n v hv key j = Inr (Some i)"
      by (auto split: option.splits)
    from Suc.IH [OF this(2)] show ?thesis .
  qed
qed

lemma index_walk_fuel:
  "index_walk n v hv key i0 = Inr r \<Longrightarrow> n \<le> m \<Longrightarrow> index_walk m v hv key i0 = Inr r"
proof (induction n arbitrary: i0 m)
  case 0
  then show ?case by simp
next
  case (Suc n)
  from Suc.prems(2) obtain m' where m: "m = Suc m'" "n \<le> m'" by (cases m) auto
  from Suc.prems(1) obtain nd where nd: "sv_get v i0 = Some nd"
    by (auto split: option.splits)
  show ?case
  proof (cases "next_index nd")
    case None
    with Suc.prems(1) nd m show ?thesis by simp
  next
    case (Some j)
    show ?thesis
    proof (cases "hash_value nd = hv \<and> fst (pair nd) = key")
      case True
      with Suc.prems(1) nd m Some show ?thesis by simp
    next
      case False
      with Suc.prems(1) nd Some have "index_walk n v hv key j = Inr r" by simp
      from Suc.IH [OF this m(2)] nd Some False m show ?thesis by auto
    qed
  qed
qed

lemma index_walk_cong:
  assumes "index_walk n v hv key i0 = Inr r"
    and "\<And>j nd. sv_get v j = Some nd \<Longrightarrow>
           \<exists>nd'. sv_get v' j = Some nd' \<and> hash_value nd' = hash_value nd \<and>
              fst (pair nd') = fst (pair nd) \<and> next_index nd' = next_index nd"
  shows "index_walk n v' hv key i0 = Inr r"
  using assms(1)
proof (induction n arbitrary: i0)
  case 0
  then show ?case by simp
next
  case (Suc n)
  from Suc.prems obtain nd where nd: "sv_get v i0 = Some nd"
    by (auto split: option.splits)
  from assms(2) [OF nd] obtain nd' where nd': "sv_get v' i0 = Some nd'"
    "hash_value nd' = hash_value nd" "fst (pair nd') = fst (pair nd)" "next_index nd' = next_index nd"
    by auto
  show ?case
  proof (cases "next_index nd")
    case None
    with Suc.prems nd nd' show ?thesis by simp
  next
    case (Some j)
    show ?thesis
    proof (cases "hash_value nd = hv \<and> fst (pair nd) = key")
      case True
      with Suc.prems nd nd' Some show ?thesis by simp
    next
      case False
      with Suc.prems nd Some have "index_walk n v hv key j = Inr r" by simp
      from Suc.IH [OF this] nd' Some False show ?thesis by auto
    qed
  qed
qed

lemma chain_tail_end:
  "chain_tail m v i0 = Inr t \<Longrightarrow> \<exists>nd. sv_get v t = Some nd \<and> next_index nd = None"
proof (induction m arbitrary: i0)
  case 0
  then show ?case by simp
next
  case (Suc m)
  from Suc.prems obtain nd where nd: "sv_get v i0 = Some nd" by (auto split: option.splits)
  show ?case
  proof (cases "next_index nd")
    case None
    with Suc.prems nd show ?thesis by auto
  next
    case (Some j)
    with Suc.prems nd have "chain_tail m v j = Inr t" by simp
    from Suc.IH [OF this] show ?thesis .
  qed
qed


lemma length_emplace: "length v \<le> length (sv_emplace v i x)"
  by (simp add: sv_emplace_def)



lemma link_key_view:
  assumes m1: "modify v p (\<lambda>nd. nd\<lparr>childs := childs nd @ [i]\<rparr>) = Inr v1"
    and m2: "modify v1 (Some i) (\<lambda>nd. nd\<lparr>parent_index := q\<rparr>) = Inr v2"
  shows "length v2 = length v"
    and "\<And>j nd. sv_get v j = Some nd \<Longrightarrow>
           \<exists>nd'. sv_get v2 j = Some nd' \<and> hash_value nd' = hash_value nd \<and>
              pair nd' = pair nd \<and> next_index nd' = next_index nd"
proof -
  from length_modify [OF m1] length_modify [OF m2] show "length v2 = length v" by simp
  fix j nd assume nd: "sv_get v j = Some nd"
  have "\<exists>n1. sv_get v1 j = Some n1 \<and> hash_value n1 = hash_value nd \<and>
              pair n1 = pair nd \<and> next_index n1 = next_index nd"
    using sv_get_modify [OF m1, of j] nd by (cases "Some j = p") simp_all
  then obtain n1 where n1: "sv_get v1 j = Some n1" "hash_value n1 = hash_value nd"
    "pair n1 = pair nd" "next_index n1 = next_index nd" by auto
  have "\<exists>n2. sv_get v2 j = Some n2 \<and> hash_value n2 = hash_value n1 \<and>
              pair n2 = pair n1 \<and> next_index n2 = next_index n1"
    using sv_get_modify [OF m2, of j] n1(1) by (cases "j = i") simp_all
  with n1 show "\<exists>nd'. sv_get v2 j = Some nd' \<and> hash_value nd' = hash_value nd \<and>
              pair nd' = pair nd \<and> next_index nd' = next_index nd" by auto
qed



lemma linked_shape:
  fixes T :: "nat \<Rightarrow> ('k, 't) hash_tree_node option"
  assumes free: "T s = None" and t: "(T(s := Some n)) p = Some t"
    and x: "(T(s := Some n, p := Some (t\<lparr>childs := childs t @ [s]\<rparr>))) s = Some x"
    and T': "T' = T(s := Some n, p := Some (t\<lparr>childs := childs t @ [s]\<rparr>),
                   s := Some (x\<lparr>parent_index := q\<rparr>))"
  shows "{j. T' j \<noteq> None} = insert s {j. T j \<noteq> None}"
    and "\<exists>m. T' s = Some m \<and> pair m = pair n \<and> hash_value m = hash_value n"
    and "\<And>j w. T j = Some w \<Longrightarrow> \<exists>w'. T' j = Some w' \<and> pair w' = pair w \<and> hash_value w' = hash_value w"
proof -
  have ps: "p \<noteq> s \<Longrightarrow> T p = Some t" using t by simp
  have xs: "pair x = pair n \<and> hash_value x = hash_value n"
    using x t by (cases "p = s") auto
  show "{j. T' j \<noteq> None} = insert s {j. T j \<noteq> None}"
    using ps by (auto simp: T' split: if_splits)
  show "\<exists>m. T' s = Some m \<and> pair m = pair n \<and> hash_value m = hash_value n"
    using xs by (simp add: T')
  fix j w assume w: "T j = Some w"
  with free have js: "j \<noteq> s" by auto
  show "\<exists>w'. T' j = Some w' \<and> pair w' = pair w \<and> hash_value w' = hash_value w"
  proof (cases "j = p")
    case True
    with js ps w have "t = w" by simp
    with True js show ?thesis by (simp add: T')
  next
    case False
    with js w show ?thesis by (simp add: T')
  qed
qed

lemma insert_shape:
  assumes "insert_kv st s key val = Inr st' \<or> insert_kvp st s key val parent = Inr st'"
  shows "{j. tree_of (nodes st') j \<noteq> None} = insert s {j. tree_of (nodes st) j \<noteq> None}"
    and "tree_of (nodes st) s = None"
    and "\<exists>m. tree_of (nodes st') s = Some m \<and> pair m = (key, val) \<and> hash_value m = hasher st key"
    and "\<And>j w. tree_of (nodes st) j = Some w \<Longrightarrow>
           \<exists>w'. tree_of (nodes st') j = Some w' \<and> pair w' = pair w \<and> hash_value w' = hash_value w"
proof -
  let ?T = "tree_of (nodes st)"
  let ?n = "new_node key val (hasher st key)"
  have "?T s = None \<and> (tree_of (nodes st') = ?T(s := Some ?n) \<or>
     (\<exists>p t x q. (?T(s := Some ?n)) p = Some t \<and>
        (?T(s := Some ?n, p := Some (t\<lparr>childs := childs t @ [s]\<rparr>))) s = Some x \<and>
        tree_of (nodes st') = ?T(s := Some ?n, p := Some (t\<lparr>childs := childs t @ [s]\<rparr>),
                   s := Some (x\<lparr>parent_index := q\<rparr>))))"
    using assms
  proof
    assume ins: "insert_kv st s key val = Inr st'"
    have free: "?T s = None" using insert_kv_misc(1) [OF ins] by (simp add: tree_of_None_iff)
    from ins show ?thesis
    proof (cases rule: insert_kv_cases)
      case root
      with free show ?thesis by simp
    next
      case (child h t x)
      with free show ?thesis by blast
    qed
  next
    assume ins: "insert_kvp st s key val parent = Inr st'"
    from ins show ?thesis
    proof (cases rule: insert_kvp_cases)
      case (1 st1 p t x)
      then show ?thesis by blast
    qed
  qed
  then have free: "?T s = None" and
    shape: "tree_of (nodes st') = ?T(s := Some ?n) \<or>
     (\<exists>p t x q. (?T(s := Some ?n)) p = Some t \<and>
        (?T(s := Some ?n, p := Some (t\<lparr>childs := childs t @ [s]\<rparr>))) s = Some x \<and>
        tree_of (nodes st') = ?T(s := Some ?n, p := Some (t\<lparr>childs := childs t @ [s]\<rparr>),
                   s := Some (x\<lparr>parent_index := q\<rparr>)))"
    by blast+
  show "?T s = None" by (rule free)
  from shape show "{j. tree_of (nodes st') j \<noteq> None} = insert s {j. ?T j \<noteq> None}"
  proof
    assume "tree_of (nodes st') = ?T(s := Some ?n)"
    then show ?thesis by auto
  next
    assume "\<exists>p t x q. (?T(s := Some ?n)) p = Some t \<and>
        (?T(s := Some ?n, p := Some (t\<lparr>childs := childs t @ [s]\<rparr>))) s = Some x \<and>
        tree_of (nodes st') = ?T(s := Some ?n, p := Some (t\<lparr>childs := childs t @ [s]\<rparr>),
                   s := Some (x\<lparr>parent_index := q\<rparr>))"
    then obtain p t x q where a: "(?T(s := Some ?n)) p = Some t"
        "(?T(s := Some ?n, p := Some (t\<lparr>childs := childs t @ [s]\<rparr>))) s = Some x"
        "tree_of (nodes st') = ?T(s := Some ?n, p := Some (t\<lparr>childs := childs t @ [s]\<rparr>),
                   s := Some (x\<lparr>parent_index := q\<rparr>))" by blast
    from linked_shape(1) [OF free a] show ?thesis .
  qed
  from shape show "\<exists>m. tree_of (nodes st') s = Some m \<and> pair m = (key, val) \<and> hash_value m = hasher st key"
  proof
    assume "tree_of (nodes st') = ?T(s := Some ?n)"
    then show ?thesis by simp
  next
    assume "\<exists>p t x q. (?T(s := Some ?n)) p = Some t \<and>
        (?T(s := Some ?n, p := Some (t\<lparr>childs := childs t @ [s]\<rparr>))) s = Some x \<and>
        tree_of (nodes st') = ?T(s := Some ?n, p := Some (t\<lparr>childs := childs t @ [s]\<rparr>),
                   s := Some (x\<lparr>parent_index := q\<rparr>))"
    then obtain p t x q where a: "(?T(s := Some ?n)) p = Some t"
        "(?T(s := Some ?n, p := Some (t\<lparr>childs := childs t @ [s]\<rparr>))) s = Some x"
        "tree_of (nodes st') = ?T(s := Some ?n, p := Some (t\<lparr>childs := childs t @ [s]\<rparr>),
                   s := Some (x\<lparr>parent_index := q\<rparr>))" by blast
    from linked_shape(2) [OF free a] show ?thesis by simp
  qed
  fix j w assume w: "?T j = Some w"
  from shape show "\<exists>w'. tree_of (nodes st') j = Some w' \<and> pair w' = pair w \<and> hash_value w' = hash_value w"
  proof
    assume "tree_of (nodes st') = ?T(s := Some ?n)"
    with w free show ?thesis by auto
  next
    assume "\<exists>p t x q. (?T(s := Some ?n)) p = Some t \<and>
        (?T(s := Some ?n, p := Some (t\<lparr>childs := childs t @ [s]\<rparr>))) s = Some x \<and>
        tree_of (nodes st') = ?T(s := Some ?n, p := Some (t\<lparr>childs := childs t @ [s]\<rparr>),
                   s := Some (x\<lparr>parent_index := q\<rparr>))"
    then obtain p t x q where a: "(?T(s := Some ?n)) p = Some t"
        "(?T(s := Some ?n, p := Some (t\<lparr>childs := childs t @ [s]\<rparr>))) s = Some x"
        "tree_of (nodes st') = ?T(s := Some ?n, p := Some (t\<lparr>childs := childs t @ [s]\<rparr>),
                   s := Some (x\<lparr>parent_index := q\<rparr>))" by blast
    from linked_shape(3) [OF free a w] show ?thesis .
  qed
qed

lemma insert_size:
  assumes "insert_kv st s key val = Inr st' \<or> insert_kvp st s key val parent = Inr st'"
  shows "size_ht st' = Suc (size_ht st)"
proof -
  note sh = insert_shape [OF assms]
  have fin: "finite {j. tree_of (nodes st) j \<noteq> None}"
    using finite_live [of "nodes st"] by (simp add: tree_of_None_iff)
  have notin: "s \<notin> {j. tree_of (nodes st) j \<noteq> None}" using sh(2) by simp
  show ?thesis
    unfolding size_ht_def sv_size_tree_of sh(1) by (rule card_insert_disjoint [OF fin notin])
qed

section \<open>Traversal\<close>

lemma child_rel_childs_of: "(x, c) \<in> child_rel v \<longleftrightarrow> c \<in> set (childs_of v x)"
  by (cases "sv_get v x") (simp_all add: child_rel_def childs_of_def)

lemma bfs_prefix_init:
  assumes "sv_get v r \<noteq> None"
  shows "bfs_prefix v r [r] 0"
  using assms by (simp add: bfs_prefix_def)

lemma bfs_prefix_closed:
  assumes bp: "bfs_prefix v r W (length W)"
  shows "subtree v r \<subseteq> set W"
proof
  fix x assume "x \<in> subtree v r"
  then have "(r, x) \<in> (child_rel v)\<^sup>*" by (simp add: subtree_def)
  then show "x \<in> set W"
  proof (induction rule: rtrancl_induct)
    case base
    from bp have "W = r # concat (map (childs_of v) W)" by (simp add: bfs_prefix_def)
    then have "r \<in> set W" by (metis list.set_intros(1))
    then show ?case .
  next
    case (step y z)
    from bp have W: "W = r # concat (map (childs_of v) W)" by (simp add: bfs_prefix_def)
    from step.hyps(2) have "z \<in> set (childs_of v y)" by (simp add: child_rel_childs_of)
    with step.IH have "z \<in> set (concat (map (childs_of v) W))" by auto
    then have "z \<in> set (r # concat (map (childs_of v) W))" by simp
    with W show ?case by simp
  qed
qed

lemma bfs_prefix_progress:
  assumes bp: "bfs_prefix v r W k" and k: "k < sv_size v"
    and reach: "\<And>j. sv_get v j \<noteq> None \<Longrightarrow> j \<in> subtree v r"
  shows "k < length W"
proof (rule ccontr)
  assume "\<not> k < length W"
  with bp have kl: "k = length W" by (simp add: bfs_prefix_def)
  from bfs_prefix_closed [OF bp [unfolded kl]] reach have "{j. sv_get v j \<noteq> None} \<subseteq> set W" by auto
  then have "card {j. sv_get v j \<noteq> None} \<le> card (set W)" by (intro card_mono) simp_all
  also have "\<dots> \<le> length W" by (rule card_length)
  finally show False using k kl by (simp add: sv_size_card)
qed

lemma bfs_prefix_full:
  assumes bp: "bfs_prefix v r W k" and k: "sv_size v \<le> k"
  shows "length W = sv_size v" "set W = {j. sv_get v j \<noteq> None}" "k = sv_size v"
proof -
  from bp have d: "distinct W" and sub: "set W \<subseteq> {j. sv_get v j \<noteq> None}" and kl: "k \<le> length W"
    by (simp_all add: bfs_prefix_def)
  from d have "length W = card (set W)" by (simp add: distinct_card)
  also from sub have "\<dots> \<le> card {j. sv_get v j \<noteq> None}" by (intro card_mono finite_live)
  finally have le: "length W \<le> sv_size v" by (simp add: sv_size_card)
  with k kl show "length W = sv_size v" "k = sv_size v" by simp_all
  with d have "card (set W) = card {j. sv_get v j \<noteq> None}" by (simp add: distinct_card sv_size_card)
  with sub show "set W = {j. sv_get v j \<noteq> None}" by (intro card_subset_eq finite_live)
qed

lemma bfs_prefix_step:
  assumes bp: "bfs_prefix v r W k" and k: "k < length W"
    and root: "\<And>nd. sv_get v r = Some nd \<Longrightarrow> parent_index nd = None"
    and lk: "\<And>x nd c. sv_get v x = Some nd \<Longrightarrow> c \<in> set (childs nd) \<Longrightarrow>
           \<exists>cn. sv_get v c = Some cn \<and> parent_index cn = Some x"
    and dist: "\<And>j nd. sv_get v j = Some nd \<Longrightarrow> distinct (childs nd)"
  shows "bfs_prefix v r (W @ childs_of v (W ! k)) (Suc k)"
proof -
  let ?x = "W ! k"
  let ?W' = "W @ childs_of v ?x"
  from bp have W: "W = r # concat (map (childs_of v) (take k W))" and d: "distinct W"
    and sub: "set W \<subseteq> {j. sv_get v j \<noteq> None}"
    and ord: "\<forall>a<k. \<forall>c\<in>set (childs_of v (W ! a)). \<exists>b. a < b \<and> b < length W \<and> W ! b = c"
    by (simp_all add: bfs_prefix_def)
  from k sub obtain xn where xn: "sv_get v ?x = Some xn" by (auto dest: nth_mem)
  then have cx: "childs_of v ?x = childs xn" by (simp add: childs_of_def)
  have par: "\<exists>cn. sv_get v c = Some cn \<and> parent_index cn = Some y"
    if "c \<in> set (childs_of v y)" for c y
  proof (cases "sv_get v y")
    case None
    with that show ?thesis by (simp add: childs_of_def)
  next
    case (Some yn)
    with that have "c \<in> set (childs yn)" by (simp add: childs_of_def)
    from lk [OF Some this] show ?thesis .
  qed
  have t: "take (Suc k) ?W' = take k W @ [?x]" using k by (simp add: take_Suc_conv_app_nth)
  have 1: "?W' = r # concat (map (childs_of v) (take (Suc k) ?W'))"
  proof -
    have "r # concat (map (childs_of v) (take (Suc k) ?W')) =
          (r # concat (map (childs_of v) (take k W))) @ childs_of v ?x"
      unfolding t by simp
    with W show ?thesis by simp
  qed
  have fresh: "c \<notin> set W" if c: "c \<in> set (childs_of v ?x)" for c
  proof
    assume "c \<in> set W"
    with W have "c = r \<or> c \<in> set (concat (map (childs_of v) (take k W)))"
      by (metis set_ConsD)
    then show False
    proof
      assume "c = r"
      with par [OF c] root show False by auto
    next
      assume "c \<in> set (concat (map (childs_of v) (take k W)))"
      then obtain y where y: "y \<in> set (take k W)" "c \<in> set (childs_of v y)" by auto
      from y(1) obtain m where m: "m < k" "y = W ! m" using k
        by (auto simp: in_set_conv_nth)
      from par [OF c] par [OF y(2)] have "y = ?x" by auto
      with m k d show False by (simp add: nth_eq_iff_index_eq)
    qed
  qed
  have 2: "distinct ?W'"
    using d dist [OF xn] fresh by (auto simp: cx)
  have "c \<in> {j. sv_get v j \<noteq> None}" if "c \<in> set (childs_of v ?x)" for c
    using par [OF that] by auto
  with sub have 3: "set ?W' \<subseteq> {j. sv_get v j \<noteq> None}"
    by auto
  have 4: "\<exists>b. a < b \<and> b < length ?W' \<and> ?W' ! b = c"
    if a: "a < Suc k" and c: "c \<in> set (childs_of v (?W' ! a))" for a c
  proof (cases "a < k")
    case True
    with k have "?W' ! a = W ! a" by (simp add: nth_append)
    with ord True c obtain b where "a < b" "b < length W" "W ! b = c" by auto
    then show ?thesis by (intro exI [of _ b]) (simp add: nth_append)
  next
    case False
    with a have ak: "a = k" by simp
    with k have "?W' ! a = ?x" by (simp add: nth_append)
    with c obtain n where n: "n < length (childs_of v ?x)" "childs_of v ?x ! n = c"
      by (auto simp: in_set_conv_nth)
    show ?thesis
      using n k ak by (intro exI [of _ "length W + n"]) (simp add: nth_append)
  qed
  have 0: "Suc k \<le> length ?W'" using k by simp
  have 5: "\<forall>a<Suc k. \<forall>c\<in>set (childs_of v (?W' ! a)). \<exists>b. a < b \<and> b < length ?W' \<and> ?W' ! b = c"
    using 4 by blast
  from 0 1 2 3 5 show ?thesis
    unfolding bfs_prefix_def by (intro conjI)
qed

lemma traverse_bfs:
  fixes v :: "('k, 't) hash_tree_node sparse_vector"
  assumes bp: "bfs_prefix v r W k" and km: "k + m = sv_size v"
    and it: "visit it = map Some W" "it_index it = k" and e: "it_index e = sv_size v"
    and root: "\<And>nd. sv_get v r = Some nd \<Longrightarrow> parent_index nd = None"
    and lk: "\<And>x nd c. sv_get v x = Some nd \<Longrightarrow> c \<in> set (childs nd) \<Longrightarrow>
           \<exists>cn. sv_get v c = Some cn \<and> parent_index cn = Some x"
    and dist: "\<And>j nd. sv_get v j = Some nd \<Longrightarrow> distinct (childs nd)"
    and reach: "\<And>j. sv_get v j \<noteq> None \<Longrightarrow> j \<in> subtree v r"
  shows "\<exists>xs W'. traverse m v it e = Inr xs \<and> bfs_prefix v r W' (sv_size v) \<and>
           take (length W) W' = W \<and>
           list_all2 (\<lambda>(c, x) j. c = Some j \<and> (\<exists>nd. sv_get v j = Some nd \<and> x = snd (pair nd)))
             xs (drop k W')"
  using bp km it
proof (induction m arbitrary: W k it)
  case 0
  then have k: "k = sv_size v" by simp
  from bfs_prefix_full(1) [OF "0.prems"(1)] k have "length W = sv_size v" by simp
  with "0.prems" k e show ?case
    by (intro exI [of _ "[]"] exI [of _ W]) (simp add: it_eq_def)
next
  case (Suc m)
  let ?P = "\<lambda>(c, x) j. c = Some j \<and> (\<exists>nd. sv_get v j = Some nd \<and> x = snd (pair nd))"
  from Suc.prems(2) have kn: "k < sv_size v" by simp
  have kl: "k < length W"
    by (rule bfs_prefix_progress [OF Suc.prems(1) kn]) (erule reach)
  let ?x = "W ! k"
  from Suc.prems(1) kl obtain xn where xn: "sv_get v ?x = Some xn"
    by (auto simp: bfs_prefix_def dest: nth_mem)
  let ?W1 = "W @ childs_of v ?x"
  define it' where "it' = it\<lparr>visit := visit it @ map Some (childs xn), it_index := Suc (it_index it)\<rparr>"
  have neq: "\<not> it_eq it e" using kn Suc.prems(4) e by (simp add: it_eq_def)
  have cur: "current it = Inr (Some ?x)" using kl Suc.prems(3,4) by (simp add: current_def)
  have der: "deref v it = Inr (snd (pair xn))" by (simp add: deref_def cur node_at_def xn)
  have inc: "incr v it = Inr it'" by (simp add: incr_def cur node_at_def xn it'_def)
  have it1: "visit it' = map Some ?W1" "it_index it' = Suc k"
    using Suc.prems(3,4) xn by (simp_all add: it'_def childs_of_def)
  have bp1: "bfs_prefix v r ?W1 (Suc k)"
    by (rule bfs_prefix_step [OF Suc.prems(1) kl]) (erule root, erule (1) lk, erule dist)
  from Suc.prems(2) have km1: "Suc k + m = sv_size v" by simp
  from Suc.IH [OF bp1 km1 it1] obtain xs1 W' where
    tr: "traverse m v it' e = Inr xs1" and bpf: "bfs_prefix v r W' (sv_size v)" and
    tk: "take (length ?W1) W' = ?W1" and la: "list_all2 ?P xs1 (drop (Suc k) W')"
    by blast
  from arg_cong [OF tk, of length] have len: "length ?W1 \<le> length W'"
    by simp
  have tkW: "take (length W) W' = W"
  proof -
    have "take (length W) W' = take (length W) (take (length ?W1) W')" by (simp add: min_def)
    also have "\<dots> = W" unfolding tk by simp
    finally show ?thesis .
  qed
  from kl len have kl': "k < length W'" by simp
  have "W' ! k = take (length W) W' ! k" using kl by simp
  then have nth: "W' ! k = ?x" by (simp add: tkW)
  have dr: "drop k W' = ?x # drop (Suc k) W'"
    using kl' nth by (simp add: Cons_nth_drop_Suc [symmetric])
  have res: "traverse (Suc m) v it e = Inr ((Some ?x, snd (pair xn)) # xs1)"
    using neq by (simp add: cur der inc tr)
  have "list_all2 ?P ((Some ?x, snd (pair xn)) # xs1) (drop k W')"
    unfolding dr using la xn by simp
  with res bpf tkW show ?case by blast
qed

lemma sv_all_iff:
  "(\<forall>j nd. sv_get v j = Some nd \<longrightarrow> P nd) \<longleftrightarrow>
   list_all (\<lambda>x. case x of None \<Rightarrow> True | Some nd \<Rightarrow> P nd) v"
  by (auto simp: list_all_length sv_get_def split: option.splits if_splits)

section \<open>Load factor\<close>

lemma load_gt_max_iff:
  "0 < t \<Longrightarrow> (MAX_LOAD < of_nat n / of_nat t) = (9 * t < 10 * n)"
proof -
  assume t: "0 < t"
  have "(MAX_LOAD < of_nat n / of_nat t) = ((of_nat (9 * t) :: rat) < of_nat (10 * n))"
    using t by (simp add: MAX_LOAD_def field_simps)
  also have "\<dots> = (9 * t < 10 * n)" by (rule of_nat_less_iff)
  finally show ?thesis .
qed

lemma load_le_max_iff:
  "0 < t \<Longrightarrow> (of_nat n / of_nat t \<le> MAX_LOAD) = (10 * n \<le> 9 * t)"
proof -
  assume t: "0 < t"
  have "(of_nat n / of_nat t \<le> MAX_LOAD) = ((of_nat (10 * n) :: rat) \<le> of_nat (9 * t))"
    using t by (simp add: MAX_LOAD_def field_simps)
  also have "\<dots> = (10 * n \<le> 9 * t)" by (rule of_nat_le_iff)
  finally show ?thesis .
qed

lemma load_lt_min_iff:
  "0 < t \<Longrightarrow> (of_nat n / of_nat t < MIN_LOAD) = (5 * n < t)"
proof -
  assume t: "0 < t"
  have "(of_nat n / of_nat t < MIN_LOAD) = ((of_nat (5 * n) :: rat) < of_nat t)"
    using t by (simp add: MIN_LOAD_def field_simps)
  also have "\<dots> = (5 * n < t)" by (rule of_nat_less_iff)
  finally show ?thesis .
qed

lemma load_ge_min_iff:
  "0 < t \<Longrightarrow> (MIN_LOAD \<le> of_nat n / of_nat t) = (t \<le> 5 * n)"
proof -
  assume t: "0 < t"
  have "(MIN_LOAD \<le> of_nat n / of_nat t) = ((of_nat t :: rat) \<le> of_nat (5 * n))"
    using t by (simp add: MIN_LOAD_def field_simps)
  also have "\<dots> = (t \<le> 5 * n)" by (rule of_nat_le_iff)
  finally show ?thesis .
qed

lemma insert_table_size:
  assumes "insert_kv st s key val = Inr st' \<or> insert_kvp st s key val parent = Inr st'"
  shows "table_size st' = (if load_above_max st then table_size st * 2 else table_size st)"
  using assms
proof
  assume "insert_kv st s key val = Inr st'"
  then show ?thesis by (rule insert_kv_misc(3))
next
  assume "insert_kvp st s key val parent = Inr st'"
  then show ?thesis
  proof (cases rule: insert_kvp_cases)
    case (1 st1 p t x)
    from priv_insert_effect(6) [OF 1(1)] 1(5) show ?thesis by (simp add: table_size_def)
  qed
qed

lemma erase_sizes:
  assumes er: "erase st key = Inr st'" and nr: "index st key \<noteq> Inr (head_index st)"
  shows "size_ht st' \<le> size_ht st \<and>
     table_size st' = (if table_size st \<noteq> 0 \<and> 5 * size_ht st' < table_size st
                          then table_size st div 2 else table_size st)"
  using er
proof (cases rule: erase_cases)
  case root
  with nr show ?thesis by simp
next
  case (sub i nd v v')
  from erase_sub_tree_of(5) [OF sub(3,4,5)] sv_size_cong [OF sub(6)]
  have sz: "size_ht st' + card (subtree (nodes st) i) = size_ht st" by (simp add: size_ht_def)
  then have le: "size_ht st' \<le> size_ht st" by simp
  have s': "size_ht (st\<lparr>nodes := v'\<rparr>) = size_ht st'"
    using sv_size_cong [OF sub(6)] by (simp add: size_ht_def)
  have "load_below_min (st\<lparr>nodes := v'\<rparr>) = (table_size st \<noteq> 0 \<and> 5 * size_ht st' < table_size st)"
    unfolding load_below_min_def load_factor_def s'
    by (auto simp: table_size_def load_lt_min_iff)
  with sub(9) le show ?thesis by simp
qed

lemma load_above_max_iff:
  "load_above_max st =
     (if table_size st = 0 then 0 < size_ht st else 9 * table_size st < 10 * size_ht st)"
proof (cases "table_size st = 0")
  case True
  then show ?thesis by (simp add: load_above_max_def)
next
  case False
  then have "0 < table_size st" by simp
  from load_gt_max_iff [OF this, of "size_ht st"] False show ?thesis
    by (simp add: load_above_max_def load_factor_def)
qed
section \<open>Well-formed hash index\<close>

lemma chain_None [simp]: "chain v None xs \<longleftrightarrow> xs = []"
  by (auto elim: chain.cases intro: chain.intros)

lemma chain_Some:
  "chain v (Some i) zs \<longleftrightarrow>
     (\<exists>nd xs. zs = i # xs \<and> sv_get v i = Some nd \<and> chain v (next_index nd) xs \<and> i \<notin> set xs)"
  by (auto elim: chain.cases intro: chain.intros)

lemma chain_unique: "chain v start xs \<Longrightarrow> chain v start ys \<Longrightarrow> xs = ys"
proof (induction arbitrary: ys rule: chain.induct)
  case chain_Nil
  then show ?case by simp
next
  case (chain_Cons i nd xs)
  from chain_Cons.prems chain_Cons.hyps(1) obtain ys' where "ys = i # ys'" "chain v (next_index nd) ys'"
    by (auto simp: chain_Some)
  with chain_Cons.IH show ?case by simp
qed

lemma chain_distinct: "chain v start xs \<Longrightarrow> distinct xs"
  by (induction rule: chain.induct) simp_all

lemma chain_live: "chain v start xs \<Longrightarrow> set xs \<subseteq> {j. sv_get v j \<noteq> None}"
  by (induction rule: chain.induct) auto

lemma sv_size_le_length: "sv_size v \<le> length v"
  by (simp add: sv_size_def)

lemma chain_length: "chain v start xs \<Longrightarrow> length xs \<le> length v"
proof -
  assume c: "chain v start xs"
  from chain_distinct [OF c] have "length xs = card (set xs)" by (simp add: distinct_card)
  also from chain_live [OF c] have "\<dots> \<le> card {j. sv_get v j \<noteq> None}"
    by (intro card_mono finite_live)
  also have "\<dots> \<le> length v" using sv_size_le_length [of v] by (simp add: sv_size_card)
  finally show ?thesis .
qed

lemma chain_tail_ok:
  "chain v start xs \<Longrightarrow> start = Some i0 \<Longrightarrow> length xs \<le> n \<Longrightarrow>
     chain_tail n v i0 = Inr (last xs) \<and> last xs \<in> set xs"
proof (induction arbitrary: i0 n rule: chain.induct)
  case chain_Nil
  then show ?case by simp
next
  case (chain_Cons i nd xs)
  from chain_Cons.prems obtain m where m: "n = Suc m" "length xs \<le> m" "i0 = i" by (cases n) auto
  show ?case
  proof (cases "next_index nd")
    case None
    with chain_Cons.hyps(2) have "xs = []" by simp
    with None m chain_Cons.hyps(1) show ?thesis by simp
  next
    case (Some j)
    with chain_Cons.hyps(2) have ne: "xs \<noteq> []" by (auto simp: chain_Some)
    from chain_Cons.IH [OF Some m(2)] have "chain_tail m v j = Inr (last xs) \<and> last xs \<in> set xs" .
    with Some m chain_Cons.hyps(1) ne show ?thesis by simp
  qed
qed

lemma chain_last_next:
  "chain v start xs \<Longrightarrow> xs \<noteq> [] \<Longrightarrow> \<exists>nd. sv_get v (last xs) = Some nd \<and> next_index nd = None"
proof (induction rule: chain.induct)
  case chain_Nil
  then show ?case by simp
next
  case (chain_Cons i nd xs)
  show ?case
  proof (cases "xs = []")
    case True
    with chain_Cons.hyps(2) have "next_index nd = None" by (cases "next_index nd") (auto simp: chain_Some)
    with True chain_Cons.hyps(1) show ?thesis by simp
  next
    case False
    with chain_Cons.IH show ?thesis by simp
  qed
qed



lemma chain_cong:
  assumes "chain v start xs"
    and "\<And>j nd. sv_get v j = Some nd \<Longrightarrow> \<exists>nd'. sv_get v' j = Some nd' \<and> next_index nd' = next_index nd"
  shows "chain v' start xs"
  using assms(1)
proof (induction rule: chain.induct)
  case chain_Nil
  show ?case by simp
next
  case (chain_Cons i nd xs)
  from assms(2) [OF chain_Cons.hyps(1)] obtain nd' where "sv_get v' i = Some nd'"
    "next_index nd' = next_index nd" by auto
  with chain_Cons.IH chain_Cons.hyps(3) show ?case by (auto simp: chain_Some)
qed

lemma chain_append_tail:
  assumes "chain v start zs" and s: "s \<notin> set zs" "sv_get v s = Some sn" "next_index sn = None"
    and t: "sv_get v t = Some tn" "next_index tn = None" "t \<noteq> s"
  shows "chain (v[t := Some (tn\<lparr>next_index := Some s\<rparr>)]) start (if t \<in> set zs then zs @ [s] else zs)"
  using assms(1) s(1)
proof (induction rule: chain.induct)
  case chain_Nil
  show ?case by simp
next
  case (chain_Cons i nd xs)
  let ?v' = "v[t := Some (tn\<lparr>next_index := Some s\<rparr>)]"
  from t(1) have tl: "t < length v" by (rule sv_get_Some_length)
  from chain_Cons.prems have si: "s \<noteq> i" "s \<notin> set xs" by auto
  note IH = chain_Cons.IH [OF si(2)]
  show ?case
  proof (cases "i = t")
    case True
    with chain_Cons.hyps(1) t have "next_index nd = None" by simp
    with chain_Cons.hyps(2) have xs: "xs = []" by simp
    have "sv_get ?v' s = Some sn" using s(2) t(3) by (simp add: sv_get_update)
    then have "chain ?v' (Some s) [s]" using s(3) by (simp add: chain_Some)
    moreover have "sv_get ?v' t = Some (tn\<lparr>next_index := Some s\<rparr>)" using tl by (simp add: sv_get_update)
    ultimately have "chain ?v' (Some t) [t, s]" using t(3) by (simp add: chain_Some)
    with True xs show ?thesis by simp
  next
    case False
    then have "sv_get ?v' i = Some nd" using chain_Cons.hyps(1) by (simp add: sv_get_update)
    with IH chain_Cons.hyps(3) si False show ?thesis by (auto simp: chain_Some)
  qed
qed

lemma insert_map_ok:
  assumes ok: "hash_ok st" and b: "b < table_size st"
    and s: "sv_get (nodes st) s = Some sn" "next_index sn = None" "unchained st s"
  shows "\<exists>st'. insert_map st b s = Inr st' \<and> hash_ok st' \<and>
     (\<forall>j. j \<noteq> s \<longrightarrow> unchained st j \<longrightarrow>
        unchained st' j \<and> sv_get (nodes st') j = sv_get (nodes st) j)"
proof -
  let ?v = "nodes st"
  from ok have chains: "\<And>b'. b' < table_size st \<Longrightarrow> \<exists>xs. chain ?v (table st ! b') xs"
    by (simp add: hash_ok_def)
  from b have bl: "\<not> length (table st) \<le> b" by (simp add: table_size_def)
  show ?thesis
  proof (cases "table st ! b")
    case None
    let ?st' = "st\<lparr>table := (table st)[b := Some s]\<rparr>"
    from None bl have im: "insert_map st b s = Inr ?st'" by (simp add: insert_map_def)
    have cs: "chain ?v (Some s) [s]" using s by (simp add: chain_Some)
    have tb: "table ?st' ! b' = (if b' = b then Some s else table st ! b')" if "b' < table_size st" for b'
      using that by (simp add: table_size_def nth_list_update)
    have ok': "hash_ok ?st'"
      unfolding hash_ok_def
    proof (intro conjI allI impI)
      from ok show "table_size ?st' \<noteq> 0" by (simp add: hash_ok_def table_size_def)
    next
      fix b' assume "b' < table_size ?st'"
      then have b': "b' < table_size st" by (simp add: table_size_def)
      from chains [OF b'] cs tb [OF b'] show "\<exists>xs. chain (nodes ?st') (table ?st' ! b') xs"
        by (cases "b' = b") auto
    qed
    have un: "unchained ?st' j \<and> sv_get (nodes ?st') j = sv_get ?v j" if "j \<noteq> s" "unchained st j" for j
    proof -
      have "j \<notin> set xs" if "b' < table_size ?st'" "chain (nodes ?st') (table ?st' ! b') xs" for b' xs
      proof -
        from that(1) have b': "b' < table_size st" by (simp add: table_size_def)
        show ?thesis
        proof (cases "b' = b")
          case True
          with that(2) tb [OF b'] have "chain ?v (Some s) xs" by simp
          from chain_unique [OF this cs] \<open>j \<noteq> s\<close> show ?thesis by simp
        next
          case False
          with that(2) tb [OF b'] have "chain ?v (table st ! b') xs" by simp
          with \<open>unchained st j\<close> b' show ?thesis by (auto simp: unchained_def)
        qed
      qed
      then show ?thesis by (simp add: unchained_def)
    qed
    from im ok' un show ?thesis by blast
  next
    case (Some i0)
    from chains [OF b] obtain xs where xs: "chain ?v (table st ! b) xs" by blast
    from xs Some have ne: "xs \<noteq> []" by (auto simp: chain_Some)
    let ?t = "last xs"
    from chain_length [OF xs] have "length xs \<le> Suc (length ?v)" by simp
    from chain_tail_ok [OF xs Some this]
    have ct: "chain_tail (Suc (length ?v)) ?v i0 = Inr ?t" and tin: "?t \<in> set xs" by simp_all
    from chain_last_next [OF xs ne] obtain tn where tn: "sv_get ?v ?t = Some tn" "next_index tn = None"
      by blast
    from s(3) b xs tin have ts: "?t \<noteq> s" by (auto simp: unchained_def)
    let ?v' = "?v[?t := Some (tn\<lparr>next_index := Some s\<rparr>)]"
    let ?st' = "st\<lparr>nodes := ?v'\<rparr>"
    have im: "insert_map st b s = Inr ?st'"
      using bl Some ct tn by (simp add: insert_map_def modify_def)
    have new: "chain ?v' (table st ! b') (if ?t \<in> set zs then zs @ [s] else zs)"
      if "b' < table_size st" "chain ?v (table st ! b') zs" for b' zs
    proof -
      from s(3) that have "s \<notin> set zs" by (auto simp: unchained_def)
      from chain_append_tail [OF that(2) this s(1,2) tn ts] show ?thesis .
    qed
    have ok': "hash_ok ?st'"
      unfolding hash_ok_def
    proof (intro conjI allI impI)
      from ok show "table_size ?st' \<noteq> 0" by (simp add: hash_ok_def table_size_def)
    next
      fix b' assume "b' < table_size ?st'"
      then have b': "b' < table_size st" by (simp add: table_size_def)
      from chains [OF b'] obtain zs where "chain ?v (table st ! b') zs" by blast
      from new [OF b' this] show "\<exists>xs. chain (nodes ?st') (table ?st' ! b') xs" by auto
    qed
    have un: "unchained ?st' j \<and> sv_get (nodes ?st') j = sv_get ?v j" if "j \<noteq> s" "unchained st j" for j
    proof -
      have "j \<notin> set zs'" if "b' < table_size ?st'" "chain (nodes ?st') (table ?st' ! b') zs'" for b' zs'
      proof -
        from that(1) have b': "b' < table_size st" by (simp add: table_size_def)
        from chains [OF b'] obtain zs where zs: "chain ?v (table st ! b') zs" by blast
        from that(2) have "chain ?v' (table st ! b') zs'" by simp
        from chain_unique [OF this new [OF b' zs]] have "zs' = (if ?t \<in> set zs then zs @ [s] else zs)" .
        moreover from \<open>unchained st j\<close> b' zs have "j \<notin> set zs" by (auto simp: unchained_def)
        ultimately show ?thesis using \<open>j \<noteq> s\<close> by auto
      qed
      then have "unchained ?st' j" by (simp add: unchained_def)
      moreover from \<open>unchained st j\<close> b xs tin have "j \<noteq> ?t" by (auto simp: unchained_def)
      then have "sv_get (nodes ?st') j = sv_get ?v j" by (simp add: sv_get_update)
      ultimately show ?thesis by simp
    qed
    from im ok' un show ?thesis by blast
  qed
qed

lemma rehash_loop_ok:
  assumes "hash_ok st" "distinct is"
    "\<forall>i\<in>set is. (\<exists>nd. sv_get (nodes st) i = Some nd \<and> next_index nd = None) \<and> unchained st i"
  shows "\<exists>st'. rehash_loop st is = Inr st' \<and> hash_ok st'"
  using assms
proof (induction "is" arbitrary: st)
  case Nil
  then show ?case by simp
next
  case (Cons i "is")
  from Cons.prems(3) obtain nd where nd: "sv_get (nodes st) i = Some nd" "next_index nd = None"
    and un: "unchained st i" by auto
  from Cons.prems(1) have ts: "table_size st \<noteq> 0" by (simp add: hash_ok_def)
  then have b: "hash_value nd mod table_size st < table_size st" by simp
  from insert_map_ok [OF Cons.prems(1) b nd un] obtain st1 where
    im: "insert_map st (hash_value nd mod table_size st) i = Inr st1" and ok1: "hash_ok st1" and
    keep: "\<And>j. j \<noteq> i \<Longrightarrow> unchained st j \<Longrightarrow>
             unchained st1 j \<and> sv_get (nodes st1) j = sv_get (nodes st) j"
    by blast
  have rest: "\<forall>j\<in>set is. (\<exists>nd. sv_get (nodes st1) j = Some nd \<and> next_index nd = None) \<and> unchained st1 j"
  proof
    fix j assume j: "j \<in> set is"
    with Cons.prems(2) have ji: "j \<noteq> i" by auto
    from Cons.prems(3) j have "(\<exists>nd. sv_get (nodes st) j = Some nd \<and> next_index nd = None) \<and> unchained st j"
      by simp
    with keep [OF ji] show "(\<exists>nd. sv_get (nodes st1) j = Some nd \<and> next_index nd = None) \<and> unchained st1 j"
      by simp
  qed
  from Cons.prems(2) have "distinct is" by simp
  from Cons.IH [OF ok1 this rest] obtain st' where "rehash_loop st1 is = Inr st'" "hash_ok st'" by blast
  with nd ts im show ?case by (simp add: node_at_def)
qed

lemma rehash_ok:
  assumes "n \<noteq> 0"
  shows "\<exists>st'. rehash st n = Inr st' \<and> hash_ok st'"
proof -
  let ?v = "map (map_option (\<lambda>nd. nd\<lparr>next_index := None\<rparr>)) (nodes st)"
  let ?st1 = "st\<lparr>nodes := ?v, table := replicate n None\<rparr>"
  have ok: "hash_ok ?st1" using assms by (simp add: hash_ok_def table_size_def)
  have d: "distinct (sv_indices ?v)" by (simp add: sv_indices_def)
  have "\<forall>i\<in>set (sv_indices ?v).
     (\<exists>nd. sv_get (nodes ?st1) i = Some nd \<and> next_index nd = None) \<and> unchained ?st1 i"
  proof
    fix i assume "i \<in> set (sv_indices ?v)"
    then have i: "i < length (nodes st)" "nodes st ! i \<noteq> None" by (auto simp: sv_indices_def)
    then obtain nd where "nodes st ! i = Some nd" by auto
    with i have "sv_get (nodes ?st1) i = Some (nd\<lparr>next_index := None\<rparr>)" by (simp add: sv_get_def)
    moreover have "unchained ?st1 i" by (simp add: unchained_def table_size_def)
    ultimately show "(\<exists>nd. sv_get (nodes ?st1) i = Some nd \<and> next_index nd = None) \<and> unchained ?st1 i"
      by simp
  qed
  from rehash_loop_ok [OF ok d this] show ?thesis by (simp add: rehash_def Let_def)
qed

lemma priv_insert_ok:
  assumes ok: "hash_ok st" and free: "sv_get (nodes st) s = None"
  shows "\<exists>st1. priv_insert st s key val = Inr (s, st1) \<and> hash_ok st1"
proof -
  have "\<exists>st0. (if load_above_max st then rehash st (table_size st * 2) else Inr st) = Inr st0 \<and>
      hash_ok st0 \<and> tree_of (nodes st0) = tree_of (nodes st)"
  proof (cases "load_above_max st")
    case True
    from ok have "table_size st * 2 \<noteq> 0" by (simp add: hash_ok_def)
    from rehash_ok [OF this, of st] obtain st0 where
      r: "rehash st (table_size st * 2) = Inr st0" "hash_ok st0" by blast
    from rehash_effect(1) [OF r(1)] r True show ?thesis by simp
  next
    case False
    with ok show ?thesis by simp
  qed
  then obtain st0 where r: "(if load_above_max st then rehash st (table_size st * 2) else Inr st) = Inr st0"
    and ok0: "hash_ok st0" and T0: "tree_of (nodes st0) = tree_of (nodes st)" by blast
  from free T0 have free0: "sv_get (nodes st0) s = None" by (metis tree_of_None_iff)
  let ?n = "new_node key val (hasher st0 key)"
  let ?st2 = "st0\<lparr>nodes := sv_emplace (nodes st0) s ?n\<rparr>"
  have tr: "chain (nodes ?st2) start xs" if "chain (nodes st0) start xs" for start xs
  proof (rule chain_cong [OF that])
    fix j nd assume "sv_get (nodes st0) j = Some nd"
    with free0 show "\<exists>nd'. sv_get (nodes ?st2) j = Some nd' \<and> next_index nd' = next_index nd"
      by (auto simp: sv_get_emplace)
  qed
  from ok0 have ts: "table_size ?st2 \<noteq> 0" by (simp add: hash_ok_def table_size_def)
  have ok2: "hash_ok ?st2"
    unfolding hash_ok_def
  proof (intro conjI allI impI)
    show "table_size ?st2 \<noteq> 0" by (rule ts)
  next
    fix b assume "b < table_size ?st2"
    then have "b < table_size st0" by (simp add: table_size_def)
    with ok0 obtain xs where "chain (nodes st0) (table st0 ! b) xs" by (auto simp: hash_ok_def)
    from tr [OF this] show "\<exists>xs. chain (nodes ?st2) (table ?st2 ! b) xs" by auto
  qed
  have sn: "sv_get (nodes ?st2) s = Some ?n" "next_index ?n = None" by (simp_all add: sv_get_emplace)
  have un: "unchained ?st2 s"
    unfolding unchained_def
  proof (intro allI impI)
    fix b xs assume b: "b < table_size ?st2" and c: "chain (nodes ?st2) (table ?st2 ! b) xs"
    from b have "b < table_size st0" by (simp add: table_size_def)
    with ok0 obtain zs where zs: "chain (nodes st0) (table st0 ! b) zs" by (auto simp: hash_ok_def)
    from tr [OF zs] c have "xs = zs" by (auto dest: chain_unique)
    with chain_live [OF zs] free0 show "s \<notin> set xs" by auto
  qed
  from ts have b: "hasher st0 key mod table_size ?st2 < table_size ?st2" by simp
  from insert_map_ok [OF ok2 b sn un] obtain st3 where
    "insert_map ?st2 (hasher st0 key mod table_size ?st2) s = Inr st3" "hash_ok st3" by blast
  with r free0 ts show ?thesis by (simp add: priv_insert_def Let_def)
qed

lemma index_walk_set_tail:
  assumes "index_walk n v hv key i0 = Inr (Some i)"
    and "sv_get v t = Some tn" "next_index tn = None"
  shows "index_walk n (v[t := Some (tn\<lparr>next_index := Some s\<rparr>)]) hv key i0 = Inr (Some i)"
  using assms(1)
proof (induction n arbitrary: i0)
  case 0
  then show ?case by simp
next
  case (Suc n)
  let ?v' = "v[t := Some (tn\<lparr>next_index := Some s\<rparr>)]"
  from assms(2) have tl: "t < length v" by (rule sv_get_Some_length)
  from Suc.prems obtain nd where nd: "sv_get v i0 = Some nd" by (auto split: option.splits)
  show ?case
  proof (cases "i0 = t")
    case True
    with nd assms(2) have eq: "nd = tn" by simp
    with Suc.prems nd assms(3) have "hash_value tn = hv \<and> fst (pair tn) = key" "i = i0"
      by (auto split: if_splits)
    with True tl show ?thesis by (simp add: sv_get_update)
  next
    case False
    then have same: "sv_get ?v' i0 = Some nd" using nd by (simp add: sv_get_update)
    show ?thesis
    proof (cases "next_index nd")
      case None
      with Suc.prems nd same show ?thesis by simp
    next
      case (Some j)
      show ?thesis
      proof (cases "hash_value nd = hv \<and> fst (pair nd) = key")
        case True
        with Suc.prems nd Some same show ?thesis by simp
      next
        case nomatch: False
        with Suc.prems nd Some have "index_walk n v hv key j = Inr (Some i)" by simp
        from Suc.IH [OF this] same Some nomatch show ?thesis by auto
      qed
    qed
  qed
qed

lemma priv_insert_keeps_index:
  assumes ix: "index st key' = Inr (Some i)" and nl: "\<not> load_above_max st"
    and p: "priv_insert st s key val = Inr (s', st1)"
  shows "index st1 key' = Inr (Some i)"
proof -
  let ?h = "hasher st key"
  let ?b = "?h mod table_size st"
  let ?h' = "hasher st key'"
  let ?b' = "?h' mod table_size st"
  let ?F = "Suc (length (nodes st))"
  define st2 where "st2 = st\<lparr>nodes := sv_emplace (nodes st) s (new_node key val ?h)\<rparr>"
  from p nl have free: "sv_get (nodes st) s = None"
    and im: "insert_map st2 ?b s = Inr st1"
    by (auto simp: priv_insert_def Let_def st2_def table_size_def elim!: bindE split: if_splits)
  from ix have ts: "table_size st \<noteq> 0" by (auto simp: index_def Let_def split: if_splits)
  from ix ts obtain i0 where i0: "table st ! ?b' = Some i0"
    and w: "index_walk ?F (nodes st) ?h' key' i0 = Inr (Some i)"
    by (cases "table st ! ?b'") (auto simp: index_def Let_def)
  from ts have b: "?b < length (table st)" "?b' < length (table st)" by (simp_all add: table_size_def)
  have w2: "index_walk ?F (nodes st2) ?h' key' i0 = Inr (Some i)"
  proof (rule index_walk_cong [OF w])
    fix j nd assume "sv_get (nodes st) j = Some nd"
    with free have "sv_get (nodes st2) j = Some nd" by (auto simp: st2_def sv_get_emplace)
    then show "\<exists>nd'. sv_get (nodes st2) j = Some nd' \<and> hash_value nd' = hash_value nd \<and>
              fst (pair nd') = fst (pair nd) \<and> next_index nd' = next_index nd" by simp
  qed
  have F: "?F \<le> Suc (length (nodes st2))"
    using length_emplace [of "nodes st" s] by (simp add: st2_def)
  show ?thesis
  proof (cases "table st ! ?b")
    case None
    with i0 have bb: "?b' \<noteq> ?b" by auto
    from im None b have st1: "st1 = st2\<lparr>table := (table st)[?b := Some s]\<rparr>"
      by (simp add: insert_map_def st2_def)
    from index_walk_fuel [OF w2 F] i0 ts bb show ?thesis
      by (simp add: index_def Let_def st1 st2_def table_size_def)
  next
    case (Some j0)
    with im b obtain t vv where
      ct: "chain_tail (Suc (length (nodes st2))) (nodes st2) j0 = Inr t" and
      m: "modify (nodes st2) (Some t) (\<lambda>nd. nd\<lparr>next_index := Some s\<rparr>) = Inr vv" and
      st1: "st1 = st2\<lparr>nodes := vv\<rparr>"
      by (auto simp: insert_map_def st2_def elim!: bindE)
    from m obtain tn where tn: "sv_get (nodes st2) t = Some tn"
      "vv = (nodes st2)[t := Some (tn\<lparr>next_index := Some s\<rparr>)]"
      by (auto simp: modify_Inr_iff)
    from chain_tail_end [OF ct] tn(1) have "next_index tn = None" by simp
    from index_walk_set_tail [OF w2 tn(1) this] tn(2)
    have "index_walk ?F vv ?h' key' i0 = Inr (Some i)" by simp
    moreover have "?F \<le> Suc (length vv)" using F tn(2) by simp
    ultimately have "index_walk (Suc (length vv)) vv ?h' key' i0 = Inr (Some i)"
      by (rule index_walk_fuel)
    with i0 ts show ?thesis by (simp add: index_def Let_def st1 st2_def table_size_def)
  qed
qed

lemma link_ok:
  assumes p: "sv_get v p = Some pn" and i: "sv_get v i = Some n"
  shows "\<exists>v1 v2. modify v (Some p) (\<lambda>nd. nd\<lparr>childs := childs nd @ [i]\<rparr>) = Inr v1 \<and>
     modify v1 (Some i) (\<lambda>nd. nd\<lparr>parent_index := q\<rparr>) = Inr v2"
proof -
  let ?v1 = "v[p := Some (pn\<lparr>childs := childs pn @ [i]\<rparr>)]"
  have m1: "modify v (Some p) (\<lambda>nd. nd\<lparr>childs := childs nd @ [i]\<rparr>) = Inr ?v1"
    using p by (simp add: modify_def)
  from sv_get_modify [OF m1, of i] i have "sv_get ?v1 i \<noteq> None" by (cases "i = p") auto
  then obtain x where "sv_get ?v1 i = Some x" by auto
  then have "modify ?v1 (Some i) (\<lambda>nd. nd\<lparr>parent_index := q\<rparr>) = Inr (?v1[i := Some (x\<lparr>parent_index := q\<rparr>)])"
    by (simp add: modify_def)
  with m1 show ?thesis by blast
qed

lemma hash_ok_link:
  assumes ok: "hash_ok st1"
    and m1: "modify (nodes st1) p (\<lambda>nd. nd\<lparr>childs := childs nd @ [i]\<rparr>) = Inr v1"
    and m2: "modify v1 (Some i) (\<lambda>nd. nd\<lparr>parent_index := q\<rparr>) = Inr v2"
  shows "hash_ok (st1\<lparr>nodes := v2\<rparr>)"
  unfolding hash_ok_def
proof (intro conjI allI impI)
  from ok show "table_size (st1\<lparr>nodes := v2\<rparr>) \<noteq> 0" by (simp add: hash_ok_def table_size_def)
next
  fix b assume "b < table_size (st1\<lparr>nodes := v2\<rparr>)"
  then have "b < table_size st1" by (simp add: table_size_def)
  with ok obtain xs where xs: "chain (nodes st1) (table st1 ! b) xs" by (auto simp: hash_ok_def)
  have "chain v2 (table st1 ! b) xs"
  proof (rule chain_cong [OF xs])
    fix j nd assume "sv_get (nodes st1) j = Some nd"
    from link_key_view(2) [OF m1 m2 this]
    show "\<exists>nd'. sv_get v2 j = Some nd' \<and> next_index nd' = next_index nd" by auto
  qed
  then show "\<exists>xs. chain (nodes (st1\<lparr>nodes := v2\<rparr>)) (table (st1\<lparr>nodes := v2\<rparr>) ! b) xs" by auto
qed

lemma insert_kv_ok:
  assumes inv: "tree_inv st" and ok: "hash_ok st" and free: "sv_get (nodes st) s = None"
  shows "\<exists>st'. insert_kv st s key val = Inr st' \<and> hash_ok st'"
proof -
  from priv_insert_ok [OF ok free] obtain st1 where
    p: "priv_insert st s key val = Inr (s, st1)" and ok1: "hash_ok st1" by blast
  note e = priv_insert_effect [OF p]
  from e(3) have sl: "tree_of (nodes st1) s \<noteq> None" by simp
  then obtain sn where sn: "sv_get (nodes st1) s = Some sn" by (auto simp: tree_of_None_iff)
  show ?thesis
  proof (cases "head_index st")
    case None
    with p e(4) have "insert_kv st s key val = Inr (st1\<lparr>head_index := Some s\<rparr>)"
      by (simp add: insert_kv_def)
    moreover from ok1 have "hash_ok (st1\<lparr>head_index := Some s\<rparr>)"
      by (simp add: hash_ok_def table_size_def)
    ultimately show ?thesis by blast
  next
    case (Some h)
    from tree_invD(3) [OF inv Some] obtain t where "tree_of (nodes st) h = Some t" by blast
    with e(3) have "tree_of (nodes st1) h \<noteq> None" by (cases "h = s") auto
    then obtain hn where hn: "sv_get (nodes st1) h = Some hn" by (auto simp: tree_of_None_iff)
    from link_ok [OF hn sn, of "Some h"] obtain v1 v2 where
      m1: "modify (nodes st1) (Some h) (\<lambda>nd. nd\<lparr>childs := childs nd @ [s]\<rparr>) = Inr v1" and
      m2: "modify v1 (Some s) (\<lambda>nd. nd\<lparr>parent_index := Some h\<rparr>) = Inr v2" by blast
    from p e(4) Some m1 m2 have "insert_kv st s key val = Inr (st1\<lparr>nodes := v2\<rparr>)"
      by (simp add: insert_kv_def)
    with hash_ok_link [OF ok1 m1 m2] show ?thesis by blast
  qed
qed

lemma insert_kvp_ok:
  assumes ok: "hash_ok st" and free: "sv_get (nodes st) s = None"
    and nl: "\<not> load_above_max st" and px: "index st parent = Inr (Some p)"
  shows "\<exists>st'. insert_kvp st s key val parent = Inr st' \<and> hash_ok st'"
proof -
  from priv_insert_ok [OF ok free] obtain st1 where
    p: "priv_insert st s key val = Inr (s, st1)" and ok1: "hash_ok st1" by blast
  note e = priv_insert_effect [OF p]
  from e(3) have "tree_of (nodes st1) s \<noteq> None" by simp
  then obtain sn where sn: "sv_get (nodes st1) s = Some sn" by (auto simp: tree_of_None_iff)
  note px1 = priv_insert_keeps_index [OF px nl p]
  from px1 obtain n i0 where "index_walk n (nodes st1) (hasher st1 parent) parent i0 = Inr (Some p)"
    by (auto simp: index_def Let_def simp del: index_walk.simps split: if_splits option.splits)
  from index_walk_found [OF this] obtain pn where pn: "sv_get (nodes st1) p = Some pn" by blast
  from link_ok [OF pn sn, of "Some p"] obtain v1 v2 where
    m1: "modify (nodes st1) (Some p) (\<lambda>nd. nd\<lparr>childs := childs nd @ [s]\<rparr>) = Inr v1" and
    m2: "modify v1 (Some s) (\<lambda>nd. nd\<lparr>parent_index := Some p\<rparr>) = Inr v2" by blast
  from p px1 m1 m2 have "insert_kvp st s key val parent = Inr (st1\<lparr>nodes := v2\<rparr>)"
    by (simp add: insert_kvp_def)
  with hash_ok_link [OF ok1 m1 m2] show ?thesis by blast
qed

section \<open>The erase cascade returns\<close>




section \<open>Well-formedness of the example maps\<close>

lemma hash_ok_init: "hash_ok (hash_tree_init h :: ('k, 't) hash_tree)"
proof -
  let ?st = "hash_tree_init h :: ('k, 't) hash_tree"
  have "chain (nodes ?st) (table ?st ! b) []" if "b < 2" for b
  proof -
    from that have "b = 0 \<or> b = 1" by auto
    then have "table ?st ! b = None" by (auto simp: hash_tree_init_def)
    then show ?thesis by (simp add: chain_Nil)
  qed
  then have "\<forall>b<2. \<exists>xs. chain (nodes ?st) (table ?st ! b) xs" by blast
  moreover have "table_size ?st = 2" by (simp add: table_size_def hash_tree_init_def)
  ultimately show ?thesis by (simp add: hash_ok_def)
qed

lemma insert_kv_hash_ok:
  assumes ins: "insert_kv st s k v = Inr st'" and inv: "tree_inv st" and ok: "hash_ok st"
  shows "hash_ok st'"
proof -
  from insert_kv_ok [OF inv ok insert_kv_misc(1) [OF ins], of k v] ins show ?thesis by auto
qed

lemma insert_kvp_hash_ok:
  assumes ins: "insert_kvp st s k v parent = Inr st'" and ok: "hash_ok st"
  shows "hash_ok st'"
  using ins
proof (cases rule: insert_kvp_cases)
  case (1 st1 p t x)
  from 1(6) have free: "sv_get (nodes st) s = None" by (simp add: tree_of_None_iff)
  from priv_insert_ok [OF ok free, of k v] 1(1) have ok1: "hash_ok st1" by auto
  from ins 1(1,2) obtain v1 v2 where
    m1: "modify (nodes st1) (Some p) (\<lambda>nd. nd\<lparr>childs := childs nd @ [s]\<rparr>) = Inr v1" and
    m2: "modify v1 (Some s) (\<lambda>nd. nd\<lparr>parent_index := Some p\<rparr>) = Inr v2" and
    st': "st' = st1\<lparr>nodes := v2\<rparr>"
    by (auto simp: insert_kvp_def elim!: bindE)
  from hash_ok_link [OF ok1 m1 m2] st' show ?thesis by simp
qed

lemma run_hash_ok:
  assumes "run st ops = Inr st'" "tree_inv st" "hash_ok st" "guarded_run st ops"
    "list_all (\<lambda>op. case op of Insert a b c \<Rightarrow> True | Insert_Under a b c d \<Rightarrow> True | _ \<Rightarrow> False) ops"
  shows "hash_ok st'"
  using assms
proof (induction ops arbitrary: st)
  case Nil
  then show ?case by simp
next
  case (Cons op ops)
  from Cons.prems(1) obtain st1 where
    s1: "apply_op st op = Inr st1" and s2: "run st1 ops = Inr st'"
    by (auto elim!: bindE)
  from Cons.prems(4) s1 have g: "guarded st op" "guarded_run st1 ops" by simp_all
  from apply_op_tree_inv [OF s1 Cons.prems(2) g(1)] have t1: "tree_inv st1" .
  from Cons.prems(5) s1 Cons.prems(2,3) have "hash_ok st1"
    by (cases op) (auto intro: insert_kv_hash_ok insert_kvp_hash_ok)
  from Cons.IH [OF s2 t1 this g(2)] Cons.prems(5) show ?case by simp
qed

lemma hash_ok_example: "hash_ok example_tree"
proof -
  have g: "guarded_run (hash_tree_init id) example_ops" by code_simp
  have "list_all (\<lambda>op. case op of Insert a b c \<Rightarrow> True | Insert_Under a b c d \<Rightarrow> True | _ \<Rightarrow> False)
     example_ops" by (simp add: example_ops_def)
  with run_example tree_inv_init hash_ok_init g show ?thesis by (rule run_hash_ok)
qed




section \<open>Lookup along a chain and the chain after an insert\<close>

lemma key_match_tree_of:
  "key_match v hv key j \<longleftrightarrow> (\<exists>t. tree_of v j = Some t \<and> hash_value t = hv \<and> fst (pair t) = key)"
  by (auto simp: key_match_def tree_of_def split: option.splits)

lemma key_match_cong: "tree_of v' = tree_of v \<Longrightarrow> key_match v' = key_match v"
  by (intro ext) (simp add: key_match_tree_of)

lemma index_walk_find:
  "chain v start xs \<Longrightarrow> start = Some i0 \<Longrightarrow> length xs \<le> n \<Longrightarrow>
     index_walk n v hv key i0 = Inr (find (key_match v hv key) xs)"
proof (induction arbitrary: i0 n rule: chain.induct)
  case chain_Nil
  then show ?case by simp
next
  case (chain_Cons i nd xs)
  from chain_Cons.prems obtain m where n: "n = Suc m" "length xs \<le> m" "i0 = i" by (cases n) auto
  have km: "key_match v hv key i = (hash_value nd = hv \<and> fst (pair nd) = key)"
    using chain_Cons.hyps(1) by (simp add: key_match_def)
  show ?case
  proof (cases "next_index nd")
    case None
    with chain_Cons.hyps(2) have "xs = []" by simp
    with None chain_Cons.hyps(1) n km show ?thesis by simp
  next
    case (Some j)
    from chain_Cons.IH [OF Some n(2)]
    have "index_walk m v hv key j = Inr (find (key_match v hv key) xs)" .
    with Some chain_Cons.hyps(1) n km show ?thesis by simp
  qed
qed

lemma index_find:
  assumes ts: "table_size st \<noteq> 0"
    and c: "chain (nodes st) (table st ! (hasher st key mod table_size st)) xs"
  shows "index st key = Inr (find (key_match (nodes st) (hasher st key) key) xs)"
proof (cases "table st ! (hasher st key mod table_size st)")
  case None
  with c ts show ?thesis by (simp add: index_def Let_def)
next
  case (Some i0)
  from chain_length [OF c] have "length xs \<le> Suc (length (nodes st))" by simp
  from index_walk_find [OF c Some this] Some ts show ?thesis by (simp add: index_def Let_def)
qed

lemma insert_map_chain:
  assumes b: "b < table_size st" and c: "chain (nodes st) (table st ! b) xs"
    and s: "sv_get (nodes st) s = Some sn" "next_index sn = None" "s \<notin> set xs"
  shows "\<exists>st'. insert_map st b s = Inr st' \<and> chain (nodes st') (table st' ! b) (xs @ [s]) \<and>
     (\<forall>b' ys. b' < table_size st \<longrightarrow> chain (nodes st) (table st ! b') ys \<longrightarrow> s \<notin> set ys \<longrightarrow>
        (\<exists>ys'. chain (nodes st') (table st' ! b') ys' \<and> set ys \<subseteq> set ys'))"
proof -
  let ?v = "nodes st"
  from b have bl: "\<not> length (table st) \<le> b" by (simp add: table_size_def)
  show ?thesis
  proof (cases "table st ! b")
    case None
    let ?st' = "st\<lparr>table := (table st)[b := Some s]\<rparr>"
    from None bl have im: "insert_map st b s = Inr ?st'" by (simp add: insert_map_def)
    from None c have xs: "xs = []" by simp
    have cs: "chain ?v (Some s) [s]" using s by (simp add: chain_Some)
    have tb: "table ?st' ! b' = (if b' = b then Some s else table st ! b')" if "b' < table_size st" for b'
      using that by (simp add: table_size_def nth_list_update)
    have c1: "chain (nodes ?st') (table ?st' ! b) (xs @ [s])" using cs tb [OF b] xs by simp
    have c2: "\<exists>ys'. chain (nodes ?st') (table ?st' ! b') ys' \<and> set ys \<subseteq> set ys'"
      if "b' < table_size st" "chain ?v (table st ! b') ys" for b' ys
    proof (cases "b' = b")
      case True
      with that(2) None have "ys = []" by simp
      with c1 True show ?thesis by auto
    next
      case False
      with that tb [OF that(1)] show ?thesis by auto
    qed
    from im c1 c2 show ?thesis by blast
  next
    case (Some i0)
    from c Some have ne: "xs \<noteq> []" by (auto simp: chain_Some)
    let ?t = "last xs"
    from chain_length [OF c] have "length xs \<le> Suc (length ?v)" by simp
    from chain_tail_ok [OF c Some this]
    have ct: "chain_tail (Suc (length ?v)) ?v i0 = Inr ?t" and tin: "?t \<in> set xs" by simp_all
    from chain_last_next [OF c ne] obtain tn where tn: "sv_get ?v ?t = Some tn" "next_index tn = None"
      by blast
    from s(3) tin have ts: "?t \<noteq> s" by auto
    let ?v' = "?v[?t := Some (tn\<lparr>next_index := Some s\<rparr>)]"
    let ?st' = "st\<lparr>nodes := ?v'\<rparr>"
    have im: "insert_map st b s = Inr ?st'"
      using bl Some ct tn by (simp add: insert_map_def modify_def)
    have new: "chain ?v' (table st ! b') (if ?t \<in> set zs then zs @ [s] else zs)"
      if "chain ?v (table st ! b') zs" "s \<notin> set zs" for b' zs
      using chain_append_tail [OF that s(1,2) tn ts] .
    from new [OF c s(3)] tin have c1: "chain (nodes ?st') (table ?st' ! b) (xs @ [s])" by simp
    have c2: "\<exists>ys'. chain (nodes ?st') (table ?st' ! b') ys' \<and> set ys \<subseteq> set ys'"
      if "chain ?v (table st ! b') ys" "s \<notin> set ys" for b' ys
    proof -
      from new [OF that]
      have "chain (nodes ?st') (table ?st' ! b') (if ?t \<in> set ys then ys @ [s] else ys)" by simp
      moreover have "set ys \<subseteq> set (if ?t \<in> set ys then ys @ [s] else ys)" by auto
      ultimately show ?thesis by blast
    qed
    from im c1 c2 show ?thesis by blast
  qed
qed

lemma rehash_loop_complete:
  assumes "hash_ok st" "distinct is"
    "\<forall>i\<in>set is. (\<exists>nd. sv_get (nodes st) i = Some nd \<and> next_index nd = None) \<and> unchained st i"
  shows "\<exists>st'. rehash_loop st is = Inr st' \<and>
     (\<forall>i\<in>set is. \<exists>nd xs. sv_get (nodes st) i = Some nd \<and>
        chain (nodes st') (table st' ! (hash_value nd mod table_size st)) xs \<and> i \<in> set xs) \<and>
     (\<forall>b ys. b < table_size st \<longrightarrow> chain (nodes st) (table st ! b) ys \<longrightarrow>
        (\<exists>ys'. chain (nodes st') (table st' ! b) ys' \<and> set ys \<subseteq> set ys'))"
  using assms
proof (induction "is" arbitrary: st)
  case Nil
  then show ?case by auto
next
  case (Cons i "is")
  from Cons.prems(3) obtain nd where nd: "sv_get (nodes st) i = Some nd" "next_index nd = None"
    and un: "unchained st i" by auto
  from Cons.prems(1) have ts: "table_size st \<noteq> 0" by (simp add: hash_ok_def)
  let ?b = "hash_value nd mod table_size st"
  from ts have b: "?b < table_size st" by simp
  from insert_map_ok [OF Cons.prems(1) b nd un] obtain st1 where
    im: "insert_map st ?b i = Inr st1" and ok1: "hash_ok st1" and
    keep: "\<And>j. j \<noteq> i \<Longrightarrow> unchained st j \<Longrightarrow>
             unchained st1 j \<and> sv_get (nodes st1) j = sv_get (nodes st) j"
    by blast
  from Cons.prems(1) b obtain xs where xs: "chain (nodes st) (table st ! ?b) xs"
    by (auto simp: hash_ok_def)
  from un b xs have ixs: "i \<notin> set xs" by (auto simp: unchained_def)
  from insert_map_chain [OF b xs nd ixs] im have
    c1: "chain (nodes st1) (table st1 ! ?b) (xs @ [i])" and
    grow1: "\<And>b' ys. b' < table_size st \<Longrightarrow> chain (nodes st) (table st ! b') ys \<Longrightarrow> i \<notin> set ys \<Longrightarrow>
        \<exists>ys'. chain (nodes st1) (table st1 ! b') ys' \<and> set ys \<subseteq> set ys'"
    by auto
  note ts1 = insert_map_effect(4) [OF im]
  have rest: "\<forall>j\<in>set is. (\<exists>nd. sv_get (nodes st1) j = Some nd \<and> next_index nd = None) \<and> unchained st1 j"
  proof
    fix j assume j: "j \<in> set is"
    with Cons.prems(2) have ji: "j \<noteq> i" by auto
    from Cons.prems(3) j have "(\<exists>nd. sv_get (nodes st) j = Some nd \<and> next_index nd = None) \<and> unchained st j"
      by simp
    with keep [OF ji] show "(\<exists>nd. sv_get (nodes st1) j = Some nd \<and> next_index nd = None) \<and> unchained st1 j"
      by simp
  qed
  from Cons.prems(2) have "distinct is" by simp
  from Cons.IH [OF ok1 this rest] obtain st' where
    rl: "rehash_loop st1 is = Inr st'" and
    on: "\<And>j. j \<in> set is \<Longrightarrow> \<exists>nd xs. sv_get (nodes st1) j = Some nd \<and>
        chain (nodes st') (table st' ! (hash_value nd mod table_size st1)) xs \<and> j \<in> set xs" and
    grow: "\<And>b ys. b < table_size st1 \<Longrightarrow> chain (nodes st1) (table st1 ! b) ys \<Longrightarrow>
        \<exists>ys'. chain (nodes st') (table st' ! b) ys' \<and> set ys \<subseteq> set ys'"
    by blast
  from nd ts im rl have r: "rehash_loop st (i # is) = Inr st'" by (simp add: node_at_def)
  have a: "\<exists>nd xs. sv_get (nodes st) j = Some nd \<and>
        chain (nodes st') (table st' ! (hash_value nd mod table_size st)) xs \<and> j \<in> set xs"
    if j: "j \<in> set (i # is)" for j
  proof (cases "j = i")
    case True
    from grow [of ?b, OF _ c1] b ts1 obtain ys' where
      "chain (nodes st') (table st' ! ?b) ys'" "set (xs @ [i]) \<subseteq> set ys'" by auto
    with nd(1) True show ?thesis by auto
  next
    case False
    with j have jin: "j \<in> set is" by simp
    from Cons.prems(3) jin have "unchained st j" by simp
    from keep [OF False this] have "sv_get (nodes st1) j = sv_get (nodes st) j" by simp
    with on [OF jin] ts1 show ?thesis by simp
  qed
  have g: "\<exists>ys'. chain (nodes st') (table st' ! b') ys' \<and> set ys \<subseteq> set ys'"
    if "b' < table_size st" "chain (nodes st) (table st ! b') ys" for b' ys
  proof -
    from un that have "i \<notin> set ys" by (auto simp: unchained_def)
    from grow1 [OF that this] obtain y1 where
      y1: "chain (nodes st1) (table st1 ! b') y1" "set ys \<subseteq> set y1" by blast
    from grow [OF _ y1(1)] that(1) ts1 obtain ys' where
      "chain (nodes st') (table st' ! b') ys'" "set y1 \<subseteq> set ys'" by auto
    with y1(2) show ?thesis by blast
  qed
  from r a g show ?case by blast
qed

lemma rehash_complete:
  assumes "n \<noteq> 0" and r: "rehash st n = Inr st'"
  shows "\<forall>j t. tree_of (nodes st) j = Some t \<longrightarrow>
     (\<exists>xs. chain (nodes st') (table st' ! (hash_value t mod n)) xs \<and> j \<in> set xs)"
proof -
  let ?v = "map (map_option (\<lambda>nd. nd\<lparr>next_index := None\<rparr>)) (nodes st)"
  let ?st1 = "st\<lparr>nodes := ?v, table := replicate n None\<rparr>"
  have ok: "hash_ok ?st1" using assms by (simp add: hash_ok_def table_size_def)
  have d: "distinct (sv_indices ?v)" by (simp add: sv_indices_def)
  have pre: "\<forall>i\<in>set (sv_indices ?v).
     (\<exists>nd. sv_get (nodes ?st1) i = Some nd \<and> next_index nd = None) \<and> unchained ?st1 i"
  proof
    fix i assume "i \<in> set (sv_indices ?v)"
    then have i: "i < length (nodes st)" "nodes st ! i \<noteq> None" by (auto simp: sv_indices_def)
    then obtain nd where "nodes st ! i = Some nd" by auto
    with i have "sv_get (nodes ?st1) i = Some (nd\<lparr>next_index := None\<rparr>)" by (simp add: sv_get_def)
    moreover have "unchained ?st1 i" by (simp add: unchained_def table_size_def)
    ultimately show "(\<exists>nd. sv_get (nodes ?st1) i = Some nd \<and> next_index nd = None) \<and> unchained ?st1 i"
      by simp
  qed
  from r have rl: "rehash_loop ?st1 (sv_indices ?v) = Inr st'" by (simp add: rehash_def Let_def)
  from rehash_loop_complete [OF ok d pre] rl have
    on: "\<And>i. i \<in> set (sv_indices ?v) \<Longrightarrow> \<exists>nd xs. sv_get (nodes ?st1) i = Some nd \<and>
        chain (nodes st') (table st' ! (hash_value nd mod table_size ?st1)) xs \<and> i \<in> set xs"
    by auto
  show ?thesis
  proof (intro allI impI)
    fix j t assume t: "tree_of (nodes st) j = Some t"
    then obtain nd where nd: "sv_get (nodes st) j = Some nd" "t = tree_part nd"
      by (auto simp: tree_of_Some_iff)
    then have j: "j < length (nodes st)" "nodes st ! j = Some nd"
      by (auto simp: sv_get_def split: if_splits)
    then have "j \<in> set (sv_indices ?v)" by (simp add: sv_indices_def)
    from on [OF this] j nd(2)
    show "\<exists>xs. chain (nodes st') (table st' ! (hash_value t mod n)) xs \<and> j \<in> set xs"
      by (auto simp: sv_get_def table_size_def)
  qed
qed

lemma index_found:
  assumes "index st key = Inr (Some i)"
  shows "\<exists>nd. sv_get (nodes st) i = Some nd \<and> hash_value nd = hasher st key \<and> fst (pair nd) = key"
proof -
  from assms obtain n i0 where "index_walk n (nodes st) (hasher st key) key i0 = Inr (Some i)"
    by (auto simp: index_def Let_def simp del: index_walk.simps split: if_splits option.splits)
  from index_walk_found [OF this] show ?thesis .
qed

lemma priv_insert_ready:
  assumes rdy: "insert_ready st s key"
  shows "\<exists>st1 xs. priv_insert st s key val = Inr (s, st1) \<and>
     chain (nodes st1) (table st1 ! (hasher st key mod table_size st1)) (xs @ [s]) \<and>
     s \<notin> set xs \<and>
     (\<not> load_above_max st \<longrightarrow> chain (nodes st) (table st ! (hasher st key mod table_size st)) xs) \<and>
     (load_above_max st \<longrightarrow>
        (\<forall>j t. tree_of (nodes st) j = Some t \<longrightarrow>
           (\<exists>ys. chain (nodes st1) (table st1 ! (hash_value t mod table_size st1)) ys \<and> j \<in> set ys)))"
proof -
  from rdy have free: "sv_get (nodes st) s = None" and ts: "table_size st \<noteq> 0"
    and ch: "load_above_max st \<or>
      (\<exists>xs. chain (nodes st) (table st ! (hasher st key mod table_size st)) xs)"
    by (simp_all add: insert_ready_def)
  have "\<exists>st0 xs0. (if load_above_max st then rehash st (table_size st * 2) else Inr st) = Inr st0 \<and>
      tree_of (nodes st0) = tree_of (nodes st) \<and> hasher st0 = hasher st \<and> table_size st0 \<noteq> 0 \<and>
      chain (nodes st0) (table st0 ! (hasher st key mod table_size st0)) xs0 \<and>
      (\<not> load_above_max st \<longrightarrow> st0 = st) \<and>
      (load_above_max st \<longrightarrow>
        (\<forall>j t. tree_of (nodes st) j = Some t \<longrightarrow>
           (\<exists>ys. chain (nodes st0) (table st0 ! (hash_value t mod table_size st0)) ys \<and> j \<in> set ys)))"
  proof (cases "load_above_max st")
    case True
    from ts have n: "table_size st * 2 \<noteq> 0" by simp
    from rehash_ok [OF n, of st] obtain st0 where
      r: "rehash st (table_size st * 2) = Inr st0" and ok0: "hash_ok st0" by blast
    note e = rehash_effect [OF r]
    from e(4) n have ts0: "table_size st0 \<noteq> 0" by simp
    then have "hasher st key mod table_size st0 < table_size st0" by simp
    with ok0 obtain xs0 where "chain (nodes st0) (table st0 ! (hasher st key mod table_size st0)) xs0"
      by (auto simp: hash_ok_def)
    moreover from rehash_complete [OF n r] e(4)
    have "\<forall>j t. tree_of (nodes st) j = Some t \<longrightarrow>
           (\<exists>ys. chain (nodes st0) (table st0 ! (hash_value t mod table_size st0)) ys \<and> j \<in> set ys)"
      by simp
    ultimately show ?thesis using True r e(1,3) ts0 by auto
  next
    case False
    with ch ts show ?thesis by auto
  qed
  then obtain st0 xs0 where
    r: "(if load_above_max st then rehash st (table_size st * 2) else Inr st) = Inr st0" and
    T0: "tree_of (nodes st0) = tree_of (nodes st)" and h0: "hasher st0 = hasher st" and
    ts0: "table_size st0 \<noteq> 0" and
    c0: "chain (nodes st0) (table st0 ! (hasher st key mod table_size st0)) xs0" and
    same: "\<not> load_above_max st \<longrightarrow> st0 = st" and
    full0: "load_above_max st \<longrightarrow>
        (\<forall>j t. tree_of (nodes st) j = Some t \<longrightarrow>
           (\<exists>ys. chain (nodes st0) (table st0 ! (hash_value t mod table_size st0)) ys \<and> j \<in> set ys))"
    by blast
  from free T0 have free0: "sv_get (nodes st0) s = None" by (metis tree_of_None_iff)
  let ?n = "new_node key val (hasher st0 key)"
  let ?st2 = "st0\<lparr>nodes := sv_emplace (nodes st0) s ?n\<rparr>"
  let ?b = "hasher st key mod table_size st0"
  have tr: "chain (nodes ?st2) start xs \<and> s \<notin> set xs" if "chain (nodes st0) start xs" for start xs
  proof
    show "chain (nodes ?st2) start xs"
    proof (rule chain_cong [OF that])
      fix j nd assume "sv_get (nodes st0) j = Some nd"
      with free0 show "\<exists>nd'. sv_get (nodes ?st2) j = Some nd' \<and> next_index nd' = next_index nd"
        by (auto simp: sv_get_emplace)
    qed
    from chain_live [OF that] free0 show "s \<notin> set xs" by auto
  qed
  have ts2: "table_size ?st2 = table_size st0" by (simp add: table_size_def)
  from ts0 have b: "?b < table_size ?st2" by (simp add: ts2)
  have sn: "sv_get (nodes ?st2) s = Some ?n" "next_index ?n = None" by (simp_all add: sv_get_emplace)
  from tr [OF c0] have c2: "chain (nodes ?st2) (table ?st2 ! ?b) xs0" and sx: "s \<notin> set xs0" by simp_all
  from insert_map_chain [OF b c2 sn sx] obtain st1 where
    im: "insert_map ?st2 ?b s = Inr st1" and
    c1: "chain (nodes st1) (table st1 ! ?b) (xs0 @ [s])" and
    grow: "\<And>b' ys. b' < table_size ?st2 \<Longrightarrow> chain (nodes ?st2) (table ?st2 ! b') ys \<Longrightarrow> s \<notin> set ys \<Longrightarrow>
        \<exists>ys'. chain (nodes st1) (table st1 ! b') ys' \<and> set ys \<subseteq> set ys'"
    by blast
  from insert_map_effect(4) [OF im] ts2 have ts1: "table_size st1 = table_size st0" by simp
  have p: "priv_insert st s key val = Inr (s, st1)"
    using r free0 ts0 im h0 unfolding priv_insert_def Let_def table_size_def by simp
  have full: "\<exists>ys. chain (nodes st1) (table st1 ! (hash_value t mod table_size st1)) ys \<and> j \<in> set ys"
    if la: "load_above_max st" and t: "tree_of (nodes st) j = Some t" for j t
  proof -
    from full0 la t obtain ys where
      ys: "chain (nodes st0) (table st0 ! (hash_value t mod table_size st0)) ys" "j \<in> set ys" by blast
    from tr [OF ys(1)]
    have "chain (nodes ?st2) (table ?st2 ! (hash_value t mod table_size st0)) ys" "s \<notin> set ys"
      by simp_all
    from grow [OF _ this] ts0 ts2 obtain ys' where
      "chain (nodes st1) (table st1 ! (hash_value t mod table_size st0)) ys'" "set ys \<subseteq> set ys'"
      by auto
    with ys(2) ts1 show ?thesis by auto
  qed
  from same c0 have old: "\<not> load_above_max st \<longrightarrow>
      chain (nodes st) (table st ! (hasher st key mod table_size st)) xs0" by auto
  from p c1 sx old full ts1 show ?thesis by (intro exI [of _ st1] exI [of _ xs0]) auto
qed





lemma hash_ok_ready:
  assumes "hash_ok st" "sv_get (nodes st) s = None"
  shows "insert_ready st s key"
proof -
  from assms(1) have ts: "table_size st \<noteq> 0" by (simp add: hash_ok_def)
  then have "hasher st key mod table_size st < table_size st" by simp
  with assms(1) have "\<exists>xs. chain (nodes st) (table st ! (hasher st key mod table_size st)) xs"
    by (auto simp: hash_ok_def)
  with ts assms(2) show ?thesis by (simp add: insert_ready_def)
qed

lemma find_last: "\<forall>j\<in>set xs. \<not> P j \<Longrightarrow> P s \<Longrightarrow> find P (xs @ [s]) = Some s"
  by (induction xs) auto

lemma priv_insert_size:
  assumes "priv_insert st s key val = Inr (i, st1)"
  shows "size_ht st1 = Suc (size_ht st)"
    and "\<exists>nd. sv_get (nodes st1) s = Some nd \<and> pair nd = (key, val)"
proof -
  note e = priv_insert_effect [OF assms]
  show "size_ht st1 = Suc (size_ht st)"
    unfolding size_ht_def using e(3) e(2) by (intro sv_size_fun_upd) (simp_all add: tree_of_None_iff)
  from e(3) have "tree_of (nodes st1) s = Some (new_node key val (hasher st key))" by simp
  then obtain nd where "sv_get (nodes st1) s = Some nd" "tree_part nd = new_node key val (hasher st key)"
    by (auto simp: tree_of_Some_iff)
  then have "sv_get (nodes st1) s = Some nd \<and> pair nd = (key, val)"
    by (metis tree_part_simps(1) new_node_simps(1))
  then show "\<exists>nd. sv_get (nodes st1) s = Some nd \<and> pair nd = (key, val)" by blast
qed

lemma priv_insert_fresh_key:
  assumes rdy: "insert_ready st s key"
    and fresh: "\<forall>j nd. sv_get (nodes st) j = Some nd \<longrightarrow> fst (pair nd) \<noteq> key"
    and pi: "priv_insert st s key val = Inr (s, st1)"
  shows "index st1 key = Inr (Some s)"
proof -
  from priv_insert_ready [OF rdy, of val] pi obtain xs where
    c: "chain (nodes st1) (table st1 ! (hasher st key mod table_size st1)) (xs @ [s])" and
    sx: "s \<notin> set xs" by auto
  note e = priv_insert_effect [OF pi]
  from rdy e(6) have ts1: "table_size st1 \<noteq> 0" by (simp add: insert_ready_def)
  from c e(5) have c': "chain (nodes st1) (table st1 ! (hasher st1 key mod table_size st1)) (xs @ [s])"
    by simp
  have no: "\<forall>j\<in>set xs. \<not> key_match (nodes st1) (hasher st1 key) key j"
  proof
    fix j assume j: "j \<in> set xs"
    with sx have js: "j \<noteq> s" by auto
    with e(3) have "tree_of (nodes st1) j = tree_of (nodes st) j" by simp
    show "\<not> key_match (nodes st1) (hasher st1 key) key j"
    proof
      assume "key_match (nodes st1) (hasher st1 key) key j"
      then obtain t where "tree_of (nodes st1) j = Some t" and k: "fst (pair t) = key"
        by (auto simp: key_match_tree_of)
      with \<open>tree_of (nodes st1) j = tree_of (nodes st) j\<close>
      have "tree_of (nodes st) j = Some t" by simp
      then obtain nd where
        nd: "sv_get (nodes st) j = Some nd" "t = tree_part nd" by (auto simp: tree_of_Some_iff)
      from fresh nd(1) have "fst (pair nd) \<noteq> key" by blast
      with k nd(2) show False by simp
    qed
  qed
  from e(3,5) have yes: "key_match (nodes st1) (hasher st1 key) key s"
    by (simp add: key_match_tree_of)
  from index_find [OF ts1 c'] find_last [OF no yes] show ?thesis by simp
qed

lemma insert_self_parent:
  assumes rdy: "insert_ready st s key"
    and fresh: "\<forall>j nd. sv_get (nodes st) j = Some nd \<longrightarrow> fst (pair nd) \<noteq> key"
  shows "\<exists>st' nd. insert_kvp st s key val key = Inr st' \<and> size_ht st' = Suc (size_ht st) \<and>
     sv_get (nodes st') s = Some nd \<and> parent_index nd = Some s \<and> childs nd = [s]"
proof -
  from priv_insert_ready [OF rdy, of val] obtain st1 where
    pi: "priv_insert st s key val = Inr (s, st1)" by blast
  note ix = priv_insert_fresh_key [OF rdy fresh pi]
  from index_found [OF ix] obtain sn where sn: "sv_get (nodes st1) s = Some sn" by blast
  from link_ok [OF sn sn, of "Some s"] obtain v1 v2 where
    m1: "modify (nodes st1) (Some s) (\<lambda>nd. nd\<lparr>childs := childs nd @ [s]\<rparr>) = Inr v1" and
    m2: "modify v1 (Some s) (\<lambda>nd. nd\<lparr>parent_index := Some s\<rparr>) = Inr v2" by blast
  from pi ix m1 m2 have ins: "insert_kvp st s key val key = Inr (st1\<lparr>nodes := v2\<rparr>)"
    by (simp add: insert_kvp_def)
  let ?st' = "st1\<lparr>nodes := v2\<rparr>"
  from priv_insert_effect(3) [OF pi]
  have "tree_of (nodes st1) s = Some (new_node key val (hasher st key))" by simp
  with sn have "tree_part sn = new_node key val (hasher st key)" by (simp add: tree_of_def)
  then have "childs (tree_part sn) = []" by simp
  then have cs: "childs sn = []" by simp
  from sv_get_modify [OF m1, of s] sn have 1: "sv_get v1 s = Some (sn\<lparr>childs := childs sn @ [s]\<rparr>)"
    by simp
  from sv_get_modify [OF m2, of s] 1
  have 2: "sv_get v2 s = Some (sn\<lparr>childs := childs sn @ [s], parent_index := Some s\<rparr>)" by simp
  from insert_size [OF disjI2, OF ins] have "size_ht ?st' = Suc (size_ht st)" .
  with ins 2 cs show ?thesis by auto
qed

section \<open>Maps built by guarded operations are trees\<close>

lemma subtree_iff: "j \<in> subtree v r \<longleftrightarrow> (r, j) \<in> (child_rel v)\<^sup>*"
  by (simp add: subtree_def)

lemma rooted_alt:
  "rooted st \<longleftrightarrow>
     tree_inv st \<and>
     (\<forall>j t. tree_of (nodes st) j = Some t \<longrightarrow> distinct (childs t)) \<and>
     (\<forall>j r. tree_of (nodes st) j \<noteq> None \<longrightarrow> head_index st = Some r \<longrightarrow>
        (r, j) \<in> (child_rel (nodes st))\<^sup>*)"
proof -
  have "(\<forall>j nd. sv_get (nodes st) j = Some nd \<longrightarrow> distinct (childs nd)) \<longleftrightarrow>
     (\<forall>j t. tree_of (nodes st) j = Some t \<longrightarrow> distinct (childs t))"
    by (simp add: all_tree_of)
  then show ?thesis by (simp add: rooted_def subtree_iff tree_of_None_iff)
qed

lemma rootedI:
  assumes "tree_inv st"
    and "\<And>j t. tree_of (nodes st) j = Some t \<Longrightarrow> distinct (childs t)"
    and "\<And>j r. tree_of (nodes st) j \<noteq> None \<Longrightarrow> head_index st = Some r \<Longrightarrow>
        (r, j) \<in> (child_rel (nodes st))\<^sup>*"
  shows "rooted st"
  unfolding rooted_alt using assms by blast

lemma rootedD:
  assumes "rooted st"
  shows "tree_inv st"
    and "\<And>j t. tree_of (nodes st) j = Some t \<Longrightarrow> distinct (childs t)"
    and "\<And>j r. tree_of (nodes st) j \<noteq> None \<Longrightarrow> head_index st = Some r \<Longrightarrow>
        (r, j) \<in> (child_rel (nodes st))\<^sup>*"
  using assms unfolding rooted_alt by blast+

lemma rooted_init: "rooted (hash_tree_init h)"
  by (rule rootedI [OF tree_inv_init]) (simp_all add: hash_tree_init_def tree_of_def sv_get_def)

lemma rooted_clear: "rooted (clear st)"
  by (rule rootedI [OF tree_inv_clear]) (simp_all add: clear_def tree_of_def sv_get_def)

lemma rooted_add_child:
  fixes st st' :: "('k, 't) hash_tree"
  assumes ro: "rooted st" and inv': "tree_inv st'" and hd: "head_index st' = head_index st"
    and free: "tree_of (nodes st) s = None" and p: "tree_of (nodes st) p = Some t"
    and m: "childs m = []"
    and T': "tree_of (nodes st') = (tree_of (nodes st))(p := Some (t\<lparr>childs := childs t @ [s]\<rparr>), s := Some m)"
  shows "rooted st'"
proof (rule rootedI [OF inv'])
  let ?T = "tree_of (nodes st)"
  let ?R = "child_rel (nodes st)"
  let ?R' = "child_rel (nodes st')"
  note inv = rootedD(1) [OF ro]
  from free p have ps: "p \<noteq> s" by auto
  have snot: "s \<notin> set (childs t)"
  proof
    assume "s \<in> set (childs t)"
    from tree_invD(4) [OF inv p this] free show False by simp
  qed
  show "distinct (childs u)" if "tree_of (nodes st') j = Some u" for j u
  proof (cases "j = s")
    case True
    with that T' m show ?thesis by simp
  next
    case js: False
    show ?thesis
    proof (cases "j = p")
      case True
      with that T' js have "u = t\<lparr>childs := childs t @ [s]\<rparr>" by simp
      with rootedD(2) [OF ro p] snot show ?thesis by simp
    next
      case False
      with that T' js have "?T j = Some u" by simp
      from rootedD(2) [OF ro this] show ?thesis .
    qed
  qed
  have sub: "?R \<subseteq> ?R'"
  proof
    fix e assume "e \<in> ?R"
    then obtain x c u where e: "e = (x, c)" "?T x = Some u" "c \<in> set (childs u)"
      by (auto simp: child_rel_tree_of)
    from e(2) free have xs: "x \<noteq> s" by auto
    show "e \<in> ?R'"
    proof (cases "x = p")
      case True
      with e(2) p have "u = t" by simp
      with True e T' ps show ?thesis by (auto simp: child_rel_tree_of)
    next
      case False
      with xs e T' show ?thesis by (auto simp: child_rel_tree_of)
    qed
  qed
  from T' ps have edge: "(p, s) \<in> ?R'" by (auto simp: child_rel_tree_of)
  show "(r, j) \<in> ?R'\<^sup>*" if live: "tree_of (nodes st') j \<noteq> None" and r: "head_index st' = Some r" for j r
  proof (cases "j = s")
    case True
    from p r hd rootedD(3) [OF ro, of p r] have "(r, p) \<in> ?R\<^sup>*" by simp
    with rtrancl_mono [OF sub] have "(r, p) \<in> ?R'\<^sup>*" by blast
    with edge True show ?thesis by auto
  next
    case False
    with live T' have "?T j \<noteq> None" by (cases "j = p") (simp_all add: p)
    with r hd rootedD(3) [OF ro, of j r] have "(r, j) \<in> ?R\<^sup>*" by simp
    with rtrancl_mono [OF sub] show ?thesis by blast
  qed
qed

lemma insert_kv_rooted:
  assumes ins: "insert_kv st s k v = Inr st'" and ro: "rooted st"
  shows "rooted st'"
proof -
  note inv = rootedD(1) [OF ro]
  note inv' = insert_kv_tree_inv [OF ins inv]
  from ins show ?thesis
  proof (cases rule: insert_kv_cases)
    case root
    from tree_invD(2) [OF inv] root(1) have empty: "\<And>j. tree_of (nodes st) j = None" by simp
    show ?thesis
    proof (rule rootedI [OF inv'])
      fix j t assume "tree_of (nodes st') j = Some t"
      with root(3) empty [of j] show "distinct (childs t)" by (cases "j = s") auto
    next
      fix j r assume "tree_of (nodes st') j \<noteq> None" "head_index st' = Some r"
      with root(2,3) empty [of j] have "j = s" "r = s" by (auto split: if_splits)
      then show "(r, j) \<in> (child_rel (nodes st'))\<^sup>*" by simp
    qed
  next
    case (child h t x)
    from tree_invD(3) [OF inv child(1)] obtain ht where ht: "tree_of (nodes st) h = Some ht" by auto
    from insert_kv_misc(1) [OF ins] have free: "tree_of (nodes st) s = None"
      by (simp add: tree_of_None_iff)
    with ht have hs: "h \<noteq> s" by auto
    with child(3) ht have t: "t = ht" by simp
    from hs child(4) have x: "x = new_node k v (hasher st k)" by simp
    from child(5) hs t
    have T': "tree_of (nodes st') = (tree_of (nodes st))(h := Some (ht\<lparr>childs := childs ht @ [s]\<rparr>),
        s := Some (x\<lparr>parent_index := Some h\<rparr>))"
      by (auto simp: fun_eq_iff)
    from x have m: "childs (x\<lparr>parent_index := Some h\<rparr>) = []" by simp
    from child(1,2) have hd: "head_index st' = head_index st" by simp
    from ro inv' hd free ht m T' show ?thesis by (rule rooted_add_child)
  qed
qed

lemma insert_kvp_rooted:
  assumes ins: "insert_kvp st s k v parent = Inr st'" and ro: "rooted st"
    and hd: "head_index st \<noteq> None" and kp: "k \<noteq> parent"
  shows "rooted st'"
proof -
  note inv = rootedD(1) [OF ro]
  note inv' = insert_kvp_tree_inv [OF ins inv hd]
  from ins show ?thesis
  proof (cases rule: insert_kvp_cases)
    case (1 st1 p t x)
    from index_found [OF 1(2)] obtain pn where
      pn: "sv_get (nodes st1) p = Some pn" "fst (pair pn) = parent" by blast
    note e = priv_insert_effect [OF 1(1)]
    have ps: "p \<noteq> s"
    proof
      assume "p = s"
      moreover from e(3) have "tree_of (nodes st1) s = Some (new_node k v (hasher st k))" by simp
      ultimately have "tree_part pn = new_node k v (hasher st k)" using pn(1) by (simp add: tree_of_def)
      then have "pair (tree_part pn) = (k, v)" by simp
      with pn(2) kp show False by simp
    qed
    with 1(7) have t: "tree_of (nodes st) p = Some t" by simp
    from ps 1(8) have x: "x = new_node k v (hasher st k)" by simp
    from 1(9) ps
    have T': "tree_of (nodes st') = (tree_of (nodes st))(p := Some (t\<lparr>childs := childs t @ [s]\<rparr>),
        s := Some (x\<lparr>parent_index := Some p\<rparr>))"
      by (auto simp: fun_eq_iff)
    from x have m: "childs (x\<lparr>parent_index := Some p\<rparr>) = []" by simp
    from ro inv' 1(3) 1(6) t m T' show ?thesis by (rule rooted_add_child)
  qed
qed

lemma erase_rooted:
  assumes er: "erase st key = Inr st'" and ro: "rooted st"
  shows "rooted st'"
  using er
proof (cases rule: erase_cases)
  case root
  then show ?thesis by (simp add: rooted_clear)
next
  case (sub i nd v v')
  note inv = rootedD(1) [OF ro]
  note inv' = erase_tree_inv [OF er inv]
  note e = erase_sub_tree_of [OF sub(3,4,5)]
  let ?S = "subtree (nodes st) i"
  let ?T = "tree_of (nodes st)"
  let ?R = "child_rel (nodes st)"
  let ?R' = "child_rel (nodes st')"
  have iS: "i \<in> ?S" by (simp add: subtree_def)
  have keep: "\<exists>t. ?T j = Some t \<and> set (childs t') = set (childs t) - (if parent_index nd = Some j then {i} else {}) \<and>
      (distinct (childs t) \<longrightarrow> distinct (childs t'))"
    if "tree_of (nodes st') j = Some t'" for j t'
  proof -
    from that sub(6) have t': "tree_of v' j = Some t'" by simp
    with e(2) [of j] have nS: "j \<notin> ?S" by auto
    show ?thesis
    proof (cases "parent_index nd = Some j")
      case True
      from e(4) [OF nS True] t' obtain t where "?T j = Some t" "t' = t\<lparr>childs := removeAll i (childs t)\<rparr>"
        by auto
      with True show ?thesis by (auto simp: distinct_removeAll)
    next
      case False
      from e(3) [OF nS False] t' have "?T j = Some t'" by simp
      with False show ?thesis by simp
    qed
  qed
  have surv: "tree_of (nodes st') j \<noteq> None" if "j \<notin> ?S" "?T j \<noteq> None" for j
  proof (cases "parent_index nd = Some j")
    case True
    from e(4) [OF that(1) True] sub(6) show ?thesis by auto
  next
    case False
    from e(3) [OF that(1) False] sub(6) that(2) show ?thesis by simp
  qed
  show ?thesis
  proof (rule rootedI [OF inv'])
    fix j t' assume "tree_of (nodes st') j = Some t'"
    from keep [OF this] rootedD(2) [OF ro] show "distinct (childs t')" by blast
  next
    fix j r assume live: "tree_of (nodes st') j \<noteq> None" and r: "head_index st' = Some r"
    then obtain t' where t': "tree_of (nodes st') j = Some t'" by auto
    with sub(6) e(2) [of j] have nS: "j \<notin> ?S" by auto
    from keep [OF t'] have "?T j \<noteq> None" by auto
    with r sub(7) rootedD(3) [OF ro, of j r] have path: "(r, j) \<in> ?R\<^sup>*" by simp
    have "j \<notin> ?S \<longrightarrow> (r, j) \<in> ?R'\<^sup>*" using path
    proof (induction rule: rtrancl_induct)
      case base
      show ?case by simp
    next
      case (step y z)
      show ?case
      proof
        assume zS: "z \<notin> ?S"
        have yS: "y \<notin> ?S"
        proof
          assume "y \<in> ?S"
          with step.hyps(2) have "z \<in> ?S" by (auto simp: subtree_def intro: rtrancl_into_rtrancl)
          with zS show False by simp
        qed
        with step.IH have ry: "(r, y) \<in> ?R'\<^sup>*" by simp
        from step.hyps(2) obtain t where t: "?T y = Some t" "z \<in> set (childs t)"
          by (auto simp: child_rel_tree_of)
        from surv [OF yS] t(1) obtain t' where t': "tree_of (nodes st') y = Some t'" by auto
        from keep [OF t'] t(1) have "set (childs t') = set (childs t) - (if parent_index nd = Some y then {i} else {})"
          by auto
        moreover from zS iS have "z \<noteq> i" by auto
        ultimately have "z \<in> set (childs t')" using t(2) by auto
        with t' have "(y, z) \<in> ?R'" by (auto simp: child_rel_tree_of)
        with ry show "(r, z) \<in> ?R'\<^sup>*" by (rule rtrancl_into_rtrancl)
      qed
    qed
    with nS show "(r, j) \<in> ?R'\<^sup>*" by simp
  qed
qed

lemma relpow_anc_walk:
  assumes par: "\<And>x c. (x, c) \<in> child_rel v \<Longrightarrow> \<exists>cn. sv_get v c = Some cn \<and> parent_index cn = Some x"
  shows "(i, p) \<in> child_rel v ^^ n \<Longrightarrow> n \<le> m \<Longrightarrow> anc_walk m v p i"
proof (induction n arbitrary: p m)
  case 0
  then show ?case by (cases m) simp_all
next
  case (Suc n)
  from Suc.prems(1) obtain y where y: "(i, y) \<in> child_rel v ^^ n" "(y, p) \<in> child_rel v" by auto
  from Suc.prems(2) obtain m' where m: "m = Suc m'" "n \<le> m'" by (cases m) auto
  from par [OF y(2)] obtain cn where cn: "sv_get v p = Some cn" "parent_index cn = Some y" by blast
  from Suc.IH [OF y(1) m(2)] cn m(1) show ?case by simp
qed

lemma child_rel_card:
  assumes "links_ok st"
  shows "finite (child_rel (nodes st)) \<and> card (child_rel (nodes st)) \<le> length (nodes st)"
proof -
  let ?v = "nodes st"
  let ?R = "child_rel ?v"
  from assms have par: "\<And>x c. (x, c) \<in> ?R \<Longrightarrow> \<exists>cn. sv_get ?v c = Some cn \<and> parent_index cn = Some x"
    unfolding links_ok_def child_rel_def by blast
  have "?R \<subseteq> {..<length ?v} \<times> {..<length ?v}"
  proof
    fix e assume e: "e \<in> ?R"
    then obtain x c where xc: "e = (x, c)" by (cases e)
    with e obtain nd where "sv_get ?v x = Some nd" by (auto simp: child_rel_def)
    then have "x < length ?v" by (rule sv_get_Some_length)
    moreover from par e xc obtain cn where "sv_get ?v c = Some cn" by blast
    then have "c < length ?v" by (rule sv_get_Some_length)
    ultimately show "e \<in> {..<length ?v} \<times> {..<length ?v}" using xc by simp
  qed
  then have fin: "finite ?R" by (rule finite_subset) simp
  have inj: "inj_on snd ?R"
  proof (rule inj_onI)
    fix a b assume a: "a \<in> ?R" and b: "b \<in> ?R" and eq: "snd a = snd b"
    obtain x c where xc: "a = (x, c)" by (cases a)
    obtain y d where yd: "b = (y, d)" by (cases b)
    from eq xc yd have "d = c" by simp
    from par [of x c] a xc obtain cn where "sv_get ?v c = Some cn" "parent_index cn = Some x" by blast
    moreover from par [of y c] b yd \<open>d = c\<close> obtain cn' where
      "sv_get ?v c = Some cn'" "parent_index cn' = Some y" by blast
    ultimately have "x = y" by simp
    with xc yd \<open>d = c\<close> show "a = b" by simp
  qed
  have "snd ` ?R \<subseteq> {..<length ?v}"
  proof
    fix c assume "c \<in> snd ` ?R"
    then obtain x where "(x, c) \<in> ?R" by force
    from par [OF this] obtain cn where "sv_get ?v c = Some cn" by blast
    then show "c \<in> {..<length ?v}" by (simp add: sv_get_Some_length)
  qed
  then have "card (snd ` ?R) \<le> card {..<length ?v}" by (intro card_mono) simp_all
  with card_image [OF inj] have "card ?R \<le> length ?v" by simp
  with fin show ?thesis by simp
qed

lemma anc_walk_sound:
  assumes lk: "links_ok st" and p: "p \<in> subtree (nodes st) i"
  shows "anc_walk (length (nodes st)) (nodes st) p i"
proof -
  let ?v = "nodes st"
  let ?R = "child_rel ?v"
  from lk have par: "\<And>x c. (x, c) \<in> ?R \<Longrightarrow> \<exists>cn. sv_get ?v c = Some cn \<and> parent_index cn = Some x"
    unfolding links_ok_def child_rel_def by blast
  from child_rel_card [OF lk] have fin: "finite ?R" and cd: "card ?R \<le> length ?v" by simp_all
  from p have "(i, p) \<in> ?R\<^sup>*" by (simp add: subtree_def)
  then obtain n where n: "(i, p) \<in> ?R ^^ n" by (auto dest: rtrancl_imp_relpow)
  show ?thesis
  proof (cases "n = 0")
    case True
    with n have "(i, p) \<in> ?R ^^ 0" by simp
    from relpow_anc_walk [OF par this] show ?thesis by simp
  next
    case False
    then have "0 < n" by simp
    from relpow_finite_bounded1 [OF fin this] n obtain k where
      k: "k \<le> card ?R" "(i, p) \<in> ?R ^^ k" by auto
    from k(1) cd have "k \<le> length ?v" by simp
    from relpow_anc_walk [OF par k(2) this] show ?thesis .
  qed
qed

lemma distinct_insert_at:
  assumes "distinct cs" "i \<notin> set cs"
  shows "distinct (take n cs @ i # drop n cs)"
proof -
  from assms(1) have "distinct (take n cs @ drop n cs)" by simp
  then have "distinct (take n cs)" "distinct (drop n cs)" "set (take n cs) \<inter> set (drop n cs) = {}"
    by (simp_all only: distinct_append)
  moreover from assms(2) have "i \<notin> set (take n cs)" "i \<notin> set (drop n cs)"
    by (auto dest: in_set_takeD in_set_dropD)
  ultimately show ?thesis by auto
qed

lemma set_insert_at: "set (take n cs @ i # drop n cs) = insert i (set cs)"
proof -
  have "set cs = set (take n cs @ drop n cs)" by (simp only: append_take_drop_id)
  also have "\<dots> = set (take n cs) \<union> set (drop n cs)" by (simp only: set_append)
  finally have e: "set cs = set (take n cs) \<union> set (drop n cs)" .
  show ?thesis unfolding e by simp
qed

lemma set_parent_rooted:
  assumes sp: "set_parent st key new_parent = Inr st'" and ro: "rooted st"
    and ik: "index st key = Inr (Some i)" and nr: "Some i \<noteq> head_index st"
    and ip: "index st new_parent = Inr (Some p)" and np: "p \<notin> subtree (nodes st) i"
  shows "rooted st'"
proof -
  note inv = rootedD(1) [OF ro]
  from ik nr have "index st key \<noteq> Inr (head_index st)" by auto
  from set_parent_tree_inv [OF sp inv this] have inv': "tree_inv st'" .
  let ?T = "tree_of (nodes st)"
  let ?T' = "tree_of (nodes st')"
  let ?R = "child_rel (nodes st)"
  let ?R' = "child_rel (nodes st')"
  let ?S = "subtree (nodes st) i"
  have iS: "i \<in> ?S" by (simp add: subtree_def)
  with np have pi: "p \<noteq> i" by auto
  from sp ik ip obtain pos where psp: "priv_set_parent st (Some i) (Some p) pos = Inr st'"
    by (auto simp: set_parent_def elim!: bindE)
  from psp have "\<exists>q. (\<forall>y t. ?T y = Some t \<longrightarrow>
        (\<exists>t'. ?T' y = Some t' \<and> distinct (childs t') \<and>
           set (childs t') = (set (childs t) - (if y = q then {i} else {})) \<union> (if y = p then {i} else {}))) \<and>
      (\<forall>y. ?T' y \<noteq> None \<longrightarrow> ?T y \<noteq> None) \<and> ?T p \<noteq> None \<and> head_index st' = head_index st"
  proof (cases rule: priv_set_parent_effect)
    case (1 i' p' nd T1 pn x)
    from 1(1,2) have i': "i' = i" and p': "p' = p" by simp_all
    note f = 1(3-9) [unfolded i' p']
    from f(1) have Ti: "?T i = Some (tree_part nd)" by (simp add: tree_of_def)
    have "parent_index nd \<noteq> None"
    proof
      assume "parent_index nd = None"
      with tree_invD(1) [OF inv Ti] nr show False by simp
    qed
    then obtain q where q: "parent_index nd = Some q" by auto
    with f(2) obtain qn where qn: "?T q = Some qn"
      and T1: "T1 = ?T(q := Some (qn\<lparr>childs := removeAll i (childs qn)\<rparr>))" by auto
    let ?cs = "childs pn"
    let ?pn' = "pn\<lparr>childs := take pos ?cs @ i # drop pos ?cs\<rparr>"
    from f(5) pi have x: "T1 i = Some x" by simp
    have T': "?T' y = (if y = i then Some (x\<lparr>parent_index := Some p\<rparr>)
        else if y = p then Some ?pn' else T1 y)" for y
      using f(6) by simp
    have dist: "\<And>y t. ?T y = Some t \<Longrightarrow> distinct (childs t)" by (rule rootedD(2) [OF ro])
    have Tp: "?T p \<noteq> None" using f(3) T1 qn by (cases "p = q") auto
    have pcs: "distinct ?cs \<and> i \<notin> set ?cs \<and>
        (\<forall>t. ?T p = Some t \<longrightarrow> set ?cs = set (childs t) - (if p = q then {i} else {}))"
    proof (cases "p = q")
      case True
      with f(3) T1 have "pn = qn\<lparr>childs := removeAll i (childs qn)\<rparr>" by simp
      with dist [OF qn] True qn show ?thesis by (auto simp: distinct_removeAll)
    next
      case False
      with f(3) T1 have tp: "?T p = Some pn" by simp
      have "i \<notin> set ?cs"
      proof
        assume "i \<in> set ?cs"
        from tree_invD(4) [OF inv tp this] Ti q have "q = p" by simp
        with False show False by simp
      qed
      with dist [OF tp] tp False show ?thesis by simp
    qed
    have xcs: "distinct (childs x) \<and>
        (\<forall>t. ?T i = Some t \<longrightarrow> set (childs x) = set (childs t) - (if i = q then {i} else {}))"
    proof (cases "i = q")
      case True
      with x T1 have "x = qn\<lparr>childs := removeAll i (childs qn)\<rparr>" by simp
      with dist [OF qn] True qn show ?thesis by (auto simp: distinct_removeAll)
    next
      case False
      with x T1 have "?T i = Some x" by simp
      with dist [OF this] False show ?thesis by simp
    qed
    have view: "\<exists>t'. ?T' y = Some t' \<and> distinct (childs t') \<and>
        set (childs t') = (set (childs t) - (if y = q then {i} else {})) \<union> (if y = p then {i} else {})"
      if t: "?T y = Some t" for y t
    proof (cases "y = i")
      case True
      with T' [of y] have "?T' y = Some (x\<lparr>parent_index := Some p\<rparr>)" by simp
      moreover from xcs t True pi
      have "distinct (childs x)"
        "set (childs x) = (set (childs t) - (if y = q then {i} else {})) \<union> (if y = p then {i} else {})"
        by auto
      ultimately show ?thesis by simp
    next
      case yi: False
      show ?thesis
      proof (cases "y = p")
        case True
        with T' [of y] yi have "?T' y = Some ?pn'" by simp
        moreover from pcs have "distinct ?cs" "i \<notin> set ?cs" by simp_all
        then have "distinct (take pos ?cs @ i # drop pos ?cs)" by (rule distinct_insert_at)
        then have "distinct (childs ?pn')" by (simp del: distinct_append)
        moreover have "set (childs ?pn') = insert i (set ?cs)"
          using set_insert_at [of pos "childs pn" i] by (simp del: set_append)
        with pcs t True
        have "set (childs ?pn') = (set (childs t) - (if y = q then {i} else {})) \<union> (if y = p then {i} else {})"
          by auto
        ultimately show ?thesis by blast
      next
        case yp: False
        show ?thesis
        proof (cases "y = q")
          case True
          with T' [of y] yi yp T1 have "?T' y = Some (qn\<lparr>childs := removeAll i (childs qn)\<rparr>)" by simp
          moreover from t True qn have "t = qn" by simp
          ultimately show ?thesis using dist [OF qn] True yp by (auto simp: distinct_removeAll)
        next
          case False
          with T' [of y] yi yp T1 t have "?T' y = Some t" by simp
          with dist [OF t] False yp show ?thesis by simp
        qed
      qed
    qed
    have bk: "?T y \<noteq> None" if "?T' y \<noteq> None" for y
    proof (cases "y = i")
      case True
      with Ti show ?thesis by simp
    next
      case yi: False
      show ?thesis
      proof (cases "y = p")
        case True
        with Tp show ?thesis by simp
      next
        case False
        with that T' [of y] yi have "T1 y \<noteq> None" by simp
        with T1 qn show ?thesis by (cases "y = q") auto
      qed
    qed
    from view bk Tp f(7) show ?thesis by blast
  qed
  then obtain q where
    view: "\<And>y t. ?T y = Some t \<Longrightarrow>
        \<exists>t'. ?T' y = Some t' \<and> distinct (childs t') \<and>
           set (childs t') = (set (childs t) - (if y = q then {i} else {})) \<union> (if y = p then {i} else {})"
    and bk: "\<And>y. ?T' y \<noteq> None \<Longrightarrow> ?T y \<noteq> None" and Tp: "?T p \<noteq> None"
    and hd: "head_index st' = head_index st"
    by blast
  have keep: "?R - {(q, i)} \<subseteq> ?R'"
  proof
    fix e assume e: "e \<in> ?R - {(q, i)}"
    then obtain y c t where yc: "e = (y, c)" "?T y = Some t" "c \<in> set (childs t)" "(y, c) \<noteq> (q, i)"
      by (auto simp: child_rel_tree_of)
    from view [OF yc(2)] obtain t' where t': "?T' y = Some t'"
      "set (childs t') = (set (childs t) - (if y = q then {i} else {})) \<union> (if y = p then {i} else {})"
      by blast
    from yc(3,4) t'(2) have "c \<in> set (childs t')" by auto
    with t'(1) yc(1) show "e \<in> ?R'" by (auto simp: child_rel_tree_of)
  qed
  have edge: "(p, i) \<in> ?R'"
  proof -
    from Tp obtain t where "?T p = Some t" by auto
    from view [OF this] show ?thesis by (auto simp: child_rel_tree_of)
  qed
  show ?thesis
  proof (rule rootedI [OF inv'])
    fix j t' assume t': "?T' j = Some t'"
    then have "?T j \<noteq> None" by (intro bk) simp
    then obtain t where "?T j = Some t" by auto
    from view [OF this] t' show "distinct (childs t')" by auto
  next
    fix j r assume live: "?T' j \<noteq> None" and r: "head_index st' = Some r"
    from r hd have r0: "head_index st = Some r" by simp
    have out: "(r, z) \<in> ?R'\<^sup>*" if "?T z \<noteq> None" "z \<notin> ?S" for z
    proof -
      from rootedD(3) [OF ro that(1) r0] have "(r, z) \<in> ?R\<^sup>*" .
      then have "z \<notin> ?S \<longrightarrow> (r, z) \<in> ?R'\<^sup>*"
      proof (induction rule: rtrancl_induct)
        case base
        show ?case by simp
      next
        case (step y z)
        show ?case
        proof
          assume zS: "z \<notin> ?S"
          have yS: "y \<notin> ?S"
          proof
            assume "y \<in> ?S"
            with step.hyps(2) have "z \<in> ?S" by (auto simp: subtree_def intro: rtrancl_into_rtrancl)
            with zS show False by simp
          qed
          with step.IH have ry: "(r, y) \<in> ?R'\<^sup>*" by simp
          from zS iS have "z \<noteq> i" by auto
          with step.hyps(2) keep have "(y, z) \<in> ?R'" by auto
          with ry show "(r, z) \<in> ?R'\<^sup>*" by (rule rtrancl_into_rtrancl)
        qed
      qed
      with that(2) show ?thesis by simp
    qed
    show "(r, j) \<in> ?R'\<^sup>*"
    proof (cases "j \<in> ?S")
      case False
      from out [OF bk [OF live] False] show ?thesis .
    next
      case True
      then have "j \<in> ?R\<^sup>* `` {i}" by (simp add: subtree_def)
      then have "j \<in> (?R - {(q, i)})\<^sup>* `` {i}" by (simp only: reach_without_back_edge)
      then have "(i, j) \<in> (?R - {(q, i)})\<^sup>*" by simp
      with rtrancl_mono [OF keep] have ij: "(i, j) \<in> ?R'\<^sup>*" by blast
      from out [OF Tp np] edge have "(r, i) \<in> ?R'\<^sup>*" by (rule rtrancl_into_rtrancl)
      from this ij show ?thesis by (rule rtrancl_trans)
    qed
  qed
qed

lemma apply_op_rooted:
  assumes ap: "apply_op st op = Inr st'" and ro: "rooted st" and pr: "proper st op"
  shows "rooted st'"
proof (cases op)
  case (Insert s k v)
  with ap ro show ?thesis by (auto intro: insert_kv_rooted)
next
  case (Insert_Under s k v parent)
  with ap ro pr show ?thesis by (auto intro: insert_kvp_rooted)
next
  case (Erase k)
  with ap ro show ?thesis by (auto intro: erase_rooted)
next
  case (Set_Parent k np)
  with ap have sp: "set_parent st k np = Inr st'" by simp
  then obtain idx p pn where ik: "index st k = Inr idx" and ip: "index st np = Inr p"
    and pn: "node_at (nodes st) p = Inr pn"
    and psp: "priv_set_parent st idx p (length (childs pn)) = Inr st'"
    by (auto simp: set_parent_def elim!: bindE)
  from psp obtain i p' where ii: "idx = Some i" "p = Some p'"
    by (cases rule: priv_set_parent_effect) auto
  from pr Set_Parent ik ip ii have nr: "Some i \<noteq> head_index st"
    and aw: "\<not> anc_walk (length (nodes st)) (nodes st) p' i" by simp_all
  from rootedD(1) [OF ro] have "links_ok st" by (simp add: tree_inv_def)
  from anc_walk_sound [OF this] aw have "p' \<notin> subtree (nodes st) i" by blast
  from set_parent_rooted [OF sp ro ik [unfolded ii] nr ip [unfolded ii] this] show ?thesis .
qed

lemma run_rooted:
  assumes "run st ops = Inr st'" "rooted st" "proper_run st ops"
  shows "rooted st'"
  using assms
proof (induction ops arbitrary: st)
  case Nil
  then show ?case by simp
next
  case (Cons op ops)
  from Cons.prems(1) obtain st1 where
    s1: "apply_op st op = Inr st1" and s2: "run st1 ops = Inr st'"
    by (auto elim!: bindE)
  from Cons.prems(3) s1 have g: "proper st op" "proper_run st1 ops" by simp_all
  from apply_op_rooted [OF s1 Cons.prems(2) g(1)] have "rooted st1" .
  from Cons.IH [OF s2 this g(2)] show ?case .
qed


section \<open>The claims\<close>



text \<open>
  C6. Minimum table size. The source breaks it: \<open>clear()\<close> empties the bucket table,
  so after the root has been erased \<open>table_size()\<close> is \<open>0\<close>, and the next insert
  takes a remainder by zero.
\<close>

theorem clear_leaves_no_buckets:
  "map_sum id table_size (run (hash_tree_init id) [Insert 0 (1::nat) (10::nat), Erase 1]) = Inr 0 \<and>
   map_sum id table_size (run (hash_tree_init id) [Insert 0 (1::nat) (10::nat), Erase 1, Insert 0 1 10])
     = Inl Division_By_Zero"
  by code_simp

text \<open>
  The effect of \<open>insert(k, v)\<close> on a map that satisfies the root invariant, for every
  call that returns. The call returns when the slot handed out is free, the bucket table
  is not empty and either the insert rehashes or the chain of the key's bucket is well
  formed (\<open>insert_kv_returns\<close>).
\<close>

lemma insert_kv_props:
  assumes ins: "insert_kv st s k v = Inr st'" and inv: "tree_inv st"
  shows "(size_ht st = 0 \<longrightarrow>
           head_index st' = Some s \<and>
           (\<exists>nd. sv_get (nodes st') s = Some nd \<and> parent_index nd = None \<and> pair nd = (k, v))) \<and>
         (size_ht st \<noteq> 0 \<longrightarrow>
           (\<exists>r rn rn' nd. head_index st = Some r \<and> head_index st' = Some r \<and>
              sv_get (nodes st) r = Some rn \<and> sv_get (nodes st') r = Some rn' \<and>
              childs rn' = childs rn @ [s] \<and>
              sv_get (nodes st') s = Some nd \<and> parent_index nd = Some r \<and> pair nd = (k, v)))"
proof -
  from inv have sz: "(size_ht st = 0) = (head_index st = None)"
    by (simp add: tree_inv_def single_root_def)
  from ins show ?thesis
  proof (cases rule: insert_kv_cases)
    case root
    from root(3) have "tree_of (nodes st') s = Some (new_node k v (hasher st k))" by simp
    then obtain nd where "sv_get (nodes st') s = Some nd" "tree_part nd = new_node k v (hasher st k)"
      by (auto simp: tree_of_Some_iff)
    then have "sv_get (nodes st') s = Some nd \<and> parent_index nd = None \<and> pair nd = (k, v)"
      by (metis tree_part_simps(1,4) new_node_simps(1,4))
    with root sz show ?thesis by auto
  next
    case (child h t x)
    from tree_invD(3) [OF inv child(1)] obtain ht where ht: "tree_of (nodes st) h = Some ht" by auto
    from insert_kv_misc(1) [OF ins] ht have hs: "h \<noteq> s" by (auto simp: tree_of_Some_iff)
    with child(3) ht have t: "t = ht" by simp
    from hs child(4) have x: "x = new_node k v (hasher st k)" by simp
    from ht obtain rn where rn: "sv_get (nodes st) h = Some rn" "ht = tree_part rn"
      by (auto simp: tree_of_Some_iff)
    from child(5) hs have "tree_of (nodes st') h = Some (t\<lparr>childs := childs t @ [s]\<rparr>)" by simp
    then obtain rn' where rn': "sv_get (nodes st') h = Some rn'" "tree_part rn' = t\<lparr>childs := childs t @ [s]\<rparr>"
      by (auto simp: tree_of_Some_iff)
    from rn'(2) have "childs (tree_part rn') = childs t @ [s]" by simp
    with t rn(2) have c: "childs rn' = childs rn @ [s]" by simp
    from child(5) have "tree_of (nodes st') s = Some (x\<lparr>parent_index := Some h\<rparr>)" by simp
    then obtain nd where nd: "sv_get (nodes st') s = Some nd" "tree_part nd = x\<lparr>parent_index := Some h\<rparr>"
      by (auto simp: tree_of_Some_iff)
    from nd(2) have "parent_index (tree_part nd) = Some h" "pair (tree_part nd) = pair x" by simp_all
    with x have p: "parent_index nd = Some h" "pair nd = (k, v)" by simp_all
    from child(1) sz have "size_ht st \<noteq> 0" by simp
    with child(1,2) rn(1) rn'(1) c nd(1) p show ?thesis by auto
  qed
qed

text \<open>
  C7. Parentless insert: \<open>insert(k, v)\<close> makes the new node the root if the map was
  empty, and otherwise the last child of the root. The source breaks it on the map that
  a root erase has emptied: \<open>clear()\<close> has left no bucket, the map is empty with an
  empty root identifier, and the insert that should make its node the new root takes the
  remainder of the hash by a table size of \<open>0\<close>.
\<close>

theorem insert_after_root_erase:
  "map_sum id (\<lambda>st. (size_ht st, head_index st, table_size st))
     (run (hash_tree_init id) [Insert 0 (1::nat) (10::nat), Erase 1]) = Inr (0, None, 0) \<and>
   map_sum id size_ht
     (insert_kv (projr (run (hash_tree_init id) [Insert 0 (1::nat) (10::nat), Erase 1])) 0 2 20)
     = Inl Division_By_Zero"
  by code_simp

text \<open>
  C1 as stated fails. Reparenting the root under its child and then erasing that child
  removes every node and leaves the root identifier set; an insert under an explicit
  parent into the empty map, with the new key as its own parent, stores a node and
  leaves the root identifier empty.
\<close>

theorem single_root_broken_counterexample:
  "map_sum id single_root
     (run (hash_tree_init id) [Insert 0 (1::nat) (10::nat), Insert 1 2 20, Set_Parent 1 2, Erase 2])
     = Inr False \<and>
   map_sum id single_root (run (hash_tree_init id) [Insert_Under 0 (1::nat) (10::nat) 1]) = Inr False"
proof -
  let ?r1 = "run (hash_tree_init id) [Insert 0 (1::nat) (10::nat), Insert 1 2 20, Set_Parent 1 2, Erase 2]"
  let ?r2 = "run (hash_tree_init id) [Insert_Under 0 (1::nat) (10::nat) 1]"
  have "map_sum id (\<lambda>st. (size_ht st, head_index st)) ?r1 = Inr (0, Some 0)" by code_simp
  then obtain st1 where st1: "?r1 = Inr st1" "size_ht st1 = 0" "head_index st1 = Some 0"
    by (auto simp: map_sum_Inr_iff)
  have "map_sum id (\<lambda>st. (size_ht st, head_index st)) ?r2 = Inr (1, None)" by code_simp
  then obtain st2 where st2: "?r2 = Inr st2" "size_ht st2 = 1" "head_index st2 = None"
    by (auto simp: map_sum_Inr_iff)
  from st1 have "\<not> single_root st1" by (simp add: single_root_def)
  moreover from st2 have "\<not> single_root st2" by (simp add: single_root_def)
  ultimately show ?thesis using st1(1) st2(1) by simp
qed

text \<open>
  C1 (amended). Single-root invariant: start from the empty map and run any sequence of
  insert, erase and set_parent calls that all return, in which no insert names an
  explicit parent while the map has no root and no set_parent is applied to a key that
  resolves to the root. Then at most one live node has an empty parent link, its slot
  is the stored root identifier, and the map is empty exactly when the root identifier
  is the empty sentinel.
\<close>

theorem single_root_invariant:
  assumes "run (hash_tree_init h) ops = Inr st" and "guarded_run (hash_tree_init h) ops"
  shows "single_root st"
proof -
  from assms(1) tree_inv_init assms(2) have "tree_inv st" by (rule run_tree_inv)
  then show ?thesis by (simp add: tree_inv_def)
qed

theorem single_root_invariant_witness:
  "run (hash_tree_init id) (example_ops @ [Set_Parent 4 1, Erase 2, Insert 1 8 80])
     = Inr (projr (run (hash_tree_init id) (example_ops @ [Set_Parent 4 1, Erase 2, Insert 1 8 80]))) \<and>
   guarded_run (hash_tree_init id) (example_ops @ [Set_Parent 4 1, Erase 2, Insert 1 8 80]) \<and>
   single_root (projr (run (hash_tree_init id) (example_ops @ [Set_Parent 4 1, Erase 2, Insert 1 8 80])))"
proof -
  let ?ops = "example_ops @ [Set_Parent 4 1, Erase 2, Insert 1 8 80]"
  have "\<not> isl (run (hash_tree_init id) ?ops)" by code_simp
  then have r: "run (hash_tree_init id) ?ops = Inr (projr (run (hash_tree_init id) ?ops))"
    by (rule Inr_projr)
  have g: "guarded_run (hash_tree_init id) ?ops" by code_simp
  from single_root_invariant [OF r g] r g show ?thesis by simp
qed




text \<open>
  C4 as stated fails: the parent key is resolved only after the new node has been
  stored, so a parent equal to the new key resolves to the new node, and the insert
  returns with the map grown by a node that is its own parent.
\<close>

theorem insert_unresolved_parent_counterexample:
  "index (hash_tree_init id) (1::nat) = (Inr None :: fault + nat option) \<and>
   map_sum id size_ht (insert_kvp (hash_tree_init id) 0 (1::nat) (10::nat) 1) = Inr 1"
  by code_simp

text \<open>
  C4 (amended). \<open>insert(k, v, p)\<close> first stores the node of \<open>k\<close> and only then resolves
  \<open>p\<close>, in the map that already holds \<open>k\<close>. When the slot handed out is free, the
  bucket table is not empty and either the insert rehashes or the chain of the bucket of
  \<open>k\<close> is well formed, \<open>_insert\<close> returns: the slot is live and holds \<open>(k, v)\<close>,
  \<open>size()\<close> has grown by one and the slot is the last entry of the chain of its bucket.
  If \<open>p\<close> does not resolve in that map, the source indexes the store with the empty
  sentinel: there is no failure signal and no rollback, the behaviour is undefined. If
  \<open>p\<close> is \<open>k\<close> itself and no node held \<open>k\<close> before, \<open>p\<close> resolves to the new node,
  the call returns, and the new node is its own parent and its own only child.
\<close>

theorem insert_unresolved_parent:
  assumes rdy: "insert_ready st slot key"
  shows "\<exists>st1 xs. priv_insert st slot key val = Inr (slot, st1) \<and>
     size_ht st1 = Suc (size_ht st) \<and>
     (\<exists>nd. sv_get (nodes st1) slot = Some nd \<and> pair nd = (key, val)) \<and>
     chain (nodes st1) (table st1 ! (hasher st key mod table_size st1)) (xs @ [slot]) \<and>
     (index st1 parent = Inr None \<longrightarrow> insert_kvp st slot key val parent = Inl Invalid_Slot) \<and>
     ((\<forall>j nd. sv_get (nodes st) j = Some nd \<longrightarrow> fst (pair nd) \<noteq> key) \<longrightarrow>
        index st1 key = Inr (Some slot) \<and>
        (\<exists>st' nd. insert_kvp st slot key val key = Inr st' \<and> size_ht st' = Suc (size_ht st) \<and>
           sv_get (nodes st') slot = Some nd \<and> parent_index nd = Some slot \<and> childs nd = [slot]))"
proof -
  from priv_insert_ready [OF rdy, of val] obtain st1 xs where
    p: "priv_insert st slot key val = Inr (slot, st1)" and
    c: "chain (nodes st1) (table st1 ! (hasher st key mod table_size st1)) (xs @ [slot])"
    by blast
  note sz = priv_insert_size [OF p]
  have un: "index st1 parent = Inr None \<longrightarrow> insert_kvp st slot key val parent = Inl Invalid_Slot"
    by (simp add: insert_kvp_def p modify_def)
  have self: "(\<forall>j nd. sv_get (nodes st) j = Some nd \<longrightarrow> fst (pair nd) \<noteq> key) \<longrightarrow>
        index st1 key = Inr (Some slot) \<and>
        (\<exists>st' nd. insert_kvp st slot key val key = Inr st' \<and> size_ht st' = Suc (size_ht st) \<and>
           sv_get (nodes st') slot = Some nd \<and> parent_index nd = Some slot \<and> childs nd = [slot])"
  proof
    assume fresh: "\<forall>j nd. sv_get (nodes st) j = Some nd \<longrightarrow> fst (pair nd) \<noteq> key"
    from priv_insert_fresh_key [OF rdy fresh p] insert_self_parent [OF rdy fresh, of val]
    show "index st1 key = Inr (Some slot) \<and>
        (\<exists>st' nd. insert_kvp st slot key val key = Inr st' \<and> size_ht st' = Suc (size_ht st) \<and>
           sv_get (nodes st') slot = Some nd \<and> parent_index nd = Some slot \<and> childs nd = [slot])"
      by (rule conjI)
  qed
  from p sz c un self show ?thesis by (intro exI [of _ st1] exI [of _ xs] conjI)
qed

theorem insert_unresolved_parent_witness:
  "insert_ready example_tree 4 5 \<and>
   priv_insert example_tree 4 5 50 = Inr (4, snd (projr (priv_insert example_tree 4 5 50))) \<and>
   size_ht (snd (projr (priv_insert example_tree 4 5 50))) = Suc (size_ht example_tree) \<and>
   index (snd (projr (priv_insert example_tree 4 5 50))) 9 = Inr None \<and>
   insert_kvp example_tree 4 5 50 9 = Inl Invalid_Slot \<and>
   list_all (\<lambda>x. case x of None \<Rightarrow> True | Some nd \<Rightarrow> fst (pair nd) \<noteq> 5) (nodes example_tree) \<and>
   index (snd (projr (priv_insert example_tree 4 5 50))) 5 = Inr (Some 4) \<and>
   (\<exists>st' nd. insert_kvp example_tree 4 5 50 5 = Inr st' \<and> size_ht st' = Suc (size_ht example_tree) \<and>
      sv_get (nodes st') 4 = Some nd \<and> parent_index nd = Some 4 \<and> childs nd = [4])"
proof -
  have free: "sv_get (nodes example_tree) 4 = None" by code_simp
  from hash_ok_example free have rdy: "insert_ready example_tree 4 5" by (rule hash_ok_ready)
  have la: "list_all (\<lambda>x. case x of None \<Rightarrow> True | Some nd \<Rightarrow> fst (pair nd) \<noteq> 5) (nodes example_tree)"
    by code_simp
  then have fresh: "\<forall>j nd. sv_get (nodes example_tree) j = Some nd \<longrightarrow> fst (pair nd) \<noteq> 5"
    by (simp add: sv_all_iff [where P = "\<lambda>nd. fst (pair nd) \<noteq> 5"])
  from insert_unresolved_parent [OF rdy, of 50 9] obtain st1 where
    p: "priv_insert example_tree 4 5 50 = Inr (4, st1)" and
    sz: "size_ht st1 = Suc (size_ht example_tree)" and
    un: "index st1 9 = Inr None \<longrightarrow> insert_kvp example_tree 4 5 50 9 = Inl Invalid_Slot" and
    self: "(\<forall>j nd. sv_get (nodes example_tree) j = Some nd \<longrightarrow> fst (pair nd) \<noteq> 5) \<longrightarrow>
        index st1 5 = Inr (Some 4) \<and>
        (\<exists>st' nd. insert_kvp example_tree 4 5 50 5 = Inr st' \<and>
           size_ht st' = Suc (size_ht example_tree) \<and>
           sv_get (nodes st') 4 = Some nd \<and> parent_index nd = Some 4 \<and> childs nd = [4])"
    by (elim exE conjE) blast
  from p have st1: "st1 = snd (projr (priv_insert example_tree 4 5 50))" by simp
  have ix: "index (snd (projr (priv_insert example_tree 4 5 50))) 9 = Inr None" by code_simp
  from un ix st1 have bad: "insert_kvp example_tree 4 5 50 9 = Inl Invalid_Slot" by simp
  from self fresh have good: "index st1 5 = Inr (Some 4)"
    "\<exists>st' nd. insert_kvp example_tree 4 5 50 5 = Inr st' \<and>
           size_ht st' = Suc (size_ht example_tree) \<and>
           sv_get (nodes st') 4 = Some nd \<and> parent_index nd = Some 4 \<and> childs nd = [4]"
    by blast+
  from rdy p sz ix bad la good show ?thesis unfolding st1 by (intro conjI)
qed





lemma traversal_bfs_props:
  assumes inv: "tree_inv st"
    and dist: "\<forall>j nd. sv_get (nodes st) j = Some nd \<longrightarrow> distinct (childs nd)"
    and reach: "\<forall>j r. sv_get (nodes st) j \<noteq> None \<longrightarrow> head_index st = Some r \<longrightarrow>
                  j \<in> subtree (nodes st) r"
  shows "(size_ht st = 0 \<longrightarrow> it_eq (begin_it st) (end_it st)) \<and>
    (\<exists>xs ord. traversal st = Inr xs \<and> length xs = size_ht st \<and>
       list_all2 (\<lambda>(c, x) j. c = Some j \<and> (\<exists>nd. sv_get (nodes st) j = Some nd \<and> x = snd (pair nd)))
         xs ord \<and>
       distinct ord \<and> set ord = {j. sv_get (nodes st) j \<noteq> None} \<and>
       ord = (case head_index st of None \<Rightarrow> []
              | Some r \<Rightarrow> r # concat (map (childs_of (nodes st)) ord)) \<and>
       (\<forall>a<length ord. \<forall>c\<in>set (childs_of (nodes st) (ord ! a)).
          \<exists>b. a < b \<and> b < length ord \<and> ord ! b = c))"
proof -
  let ?v = "nodes st"
  let ?n = "size_ht st"
  from inv have sr: "(?n = 0) = (head_index st = None)" and lko: "links_ok st"
    by (simp_all add: tree_inv_def single_root_def)
  have eq0: "size_ht st = 0 \<longrightarrow> it_eq (begin_it st) (end_it st)"
    by (simp add: it_eq_def begin_it_def end_it_def)
  show ?thesis
  proof (cases "head_index st")
    case None
    with sr have n0: "?n = 0" by simp
    then have "\<forall>j. sv_get ?v j = None" by (simp add: size_ht_def sv_size_0_iff)
    then have live: "{j. sv_get ?v j \<noteq> None} = {}" by simp
    have "traversal st = Inr []"
      by (simp add: traversal_def n0 it_eq_def begin_it_def end_it_def)
    with n0 None live eq0 show ?thesis
      by (intro conjI exI [of _ "[]"]) simp_all
  next
    case (Some r)
    from lko Some obtain rn where rn: "sv_get ?v r = Some rn" "parent_index rn = None"
      by (auto simp: links_ok_def)
    have root: "\<And>nd. sv_get ?v r = Some nd \<Longrightarrow> parent_index nd = None" using rn by simp
    have lk: "\<And>x nd c. sv_get ?v x = Some nd \<Longrightarrow> c \<in> set (childs nd) \<Longrightarrow>
           \<exists>cn. sv_get ?v c = Some cn \<and> parent_index cn = Some x"
      using lko unfolding links_ok_def by blast
    have di: "\<And>j nd. sv_get ?v j = Some nd \<Longrightarrow> distinct (childs nd)" using dist by blast
    have re: "\<And>j. sv_get ?v j \<noteq> None \<Longrightarrow> j \<in> subtree ?v r" using reach Some by blast
    have bp0: "bfs_prefix ?v r [r] 0" using rn(1) by (intro bfs_prefix_init) simp
    have "\<exists>xs W'. traverse (sv_size ?v) ?v (begin_it st) (end_it st) = Inr xs \<and>
           bfs_prefix ?v r W' (sv_size ?v) \<and> take (length [r]) W' = [r] \<and>
           list_all2 (\<lambda>(c, x) j. c = Some j \<and> (\<exists>nd. sv_get ?v j = Some nd \<and> x = snd (pair nd)))
             xs (drop 0 W')"
      by (rule traverse_bfs [OF bp0])
        (simp_all add: begin_it_def end_it_def Some size_ht_def root di re, erule (1) lk)
    then obtain xs W' where
      tr: "traversal st = Inr xs" and bp: "bfs_prefix ?v r W' (sv_size ?v)" and
      la: "list_all2 (\<lambda>(c, x) j. c = Some j \<and> (\<exists>nd. sv_get ?v j = Some nd \<and> x = snd (pair nd))) xs W'"
      by (auto simp: traversal_def size_ht_def)
    note full = bfs_prefix_full [OF bp order_refl]
    from bp full(1) have W': "W' = r # concat (map (childs_of ?v) W')" and d: "distinct W'"
      and ord: "\<forall>a<length W'. \<forall>c\<in>set (childs_of ?v (W' ! a)). \<exists>b. a < b \<and> b < length W' \<and> W' ! b = c"
      by (simp_all add: bfs_prefix_def)
    from la full(1) have len: "length xs = ?n" by (simp add: list_all2_lengthD size_ht_def)
    from W' Some have W'': "W' = (case head_index st of None \<Rightarrow> []
              | Some r \<Rightarrow> r # concat (map (childs_of ?v) W'))" by simp
    from eq0 tr len la d full(2) W'' ord show ?thesis by blast
  qed
qed

text \<open>
  C8 as stated fails: the claim speaks of every map, and the inserts and reparentings
  that the source does not guard against build maps that are no trees. After
  \<open>insert(1, 10)\<close> and \<open>insert(2, 20, 2)\<close> the second node is its own parent and is
  not below the root: the map has two nodes, and the second increment of the loop reads
  the visitation sequence beyond its end. After \<open>insert(1, 10)\<close>, \<open>insert(2, 20)\<close>,
  \<open>set_parent(1, 2)\<close> and \<open>insert(3, 30, 3)\<close> the loop makes its three rounds and
  returns, having dereferenced the root twice and the third node never.
\<close>

theorem traversal_counterexample:
  "map_sum id (\<lambda>st. (size_ht st, map_sum id (map fst) (traversal st)))
     (run (hash_tree_init id) [Insert 0 (1::nat) (10::nat), Insert_Under 1 2 20 2])
     = Inr (2, Inl Out_Of_Range) \<and>
   map_sum id (\<lambda>st. (size_ht st, map_sum id (map fst) (traversal st)))
     (run (hash_tree_init id)
        [Insert 0 (1::nat) (10::nat), Insert 1 2 20, Set_Parent 1 2, Insert_Under 2 3 30 3])
     = Inr (3, Inr [Some 0, Some 1, Some 0])"
  by code_simp

text \<open>
  C8 (amended). Breadth-first traversal: let the map be a tree (the root invariant holds,
  no children sequence repeats a slot, every live node is reachable from the root by
  children links). The loop from \<open>begin()\<close> to \<open>end()\<close> returns after exactly
  \<open>size()\<close> rounds; the slots it dereferences are the live slots, each once, with the
  value stored there; their order is the root followed by the children sequences of the
  visited slots in visiting order, and every child comes after its parent. For the empty
  map \<open>begin()\<close> equals \<open>end()\<close>. Every map built from the empty map by calls that
  return is such a tree, provided that no insert with an explicit parent is made while the
  map has no root or names the new key as its own parent, and that \<open>set_parent\<close> is
  applied neither to the root nor with a new parent whose parent links lead to the moved
  node.
\<close>

theorem traversal_breadth_first:
  "(run (hash_tree_init h) ops = Inr m \<and> proper_run (hash_tree_init h) ops \<longrightarrow> rooted m) \<and>
   (rooted st \<longrightarrow>
    (size_ht st = 0 \<longrightarrow> it_eq (begin_it st) (end_it st)) \<and>
    (\<exists>xs ord. traversal st = Inr xs \<and> length xs = size_ht st \<and>
       list_all2 (\<lambda>(c, x) j. c = Some j \<and> (\<exists>nd. sv_get (nodes st) j = Some nd \<and> x = snd (pair nd)))
         xs ord \<and>
       distinct ord \<and> set ord = {j. sv_get (nodes st) j \<noteq> None} \<and>
       ord = (case head_index st of None \<Rightarrow> []
              | Some r \<Rightarrow> r # concat (map (childs_of (nodes st)) ord)) \<and>
       (\<forall>a<length ord. \<forall>c\<in>set (childs_of (nodes st) (ord ! a)).
          \<exists>b. a < b \<and> b < length ord \<and> ord ! b = c)))"
proof (intro conjI impI)
  assume "run (hash_tree_init h) ops = Inr m \<and> proper_run (hash_tree_init h) ops"
  then have "run (hash_tree_init h) ops = Inr m" "proper_run (hash_tree_init h) ops" by simp_all
  from this(1) rooted_init this(2) show "rooted m" by (rule run_rooted)
next
  assume ro: "rooted st"
  then have inv: "tree_inv st"
    and dist: "\<forall>j nd. sv_get (nodes st) j = Some nd \<longrightarrow> distinct (childs nd)"
    and reach: "\<forall>j r. sv_get (nodes st) j \<noteq> None \<longrightarrow> head_index st = Some r \<longrightarrow>
                  j \<in> subtree (nodes st) r"
    by (simp_all add: rooted_def)
  note P = traversal_bfs_props [OF inv dist reach]
  from P show "size_ht st = 0 \<Longrightarrow> it_eq (begin_it st) (end_it st)" by simp
  from P show "\<exists>xs ord. traversal st = Inr xs \<and> length xs = size_ht st \<and>
       list_all2 (\<lambda>(c, x) j. c = Some j \<and> (\<exists>nd. sv_get (nodes st) j = Some nd \<and> x = snd (pair nd)))
         xs ord \<and>
       distinct ord \<and> set ord = {j. sv_get (nodes st) j \<noteq> None} \<and>
       ord = (case head_index st of None \<Rightarrow> []
              | Some r \<Rightarrow> r # concat (map (childs_of (nodes st)) ord)) \<and>
       (\<forall>a<length ord. \<forall>c\<in>set (childs_of (nodes st) (ord ! a)).
          \<exists>b. a < b \<and> b < length ord \<and> ord ! b = c)"
    by (rule conjunct2)
qed

theorem traversal_breadth_first_witness:
  "run (hash_tree_init id) (example_ops @ [Set_Parent 4 1, Erase 2, Insert 1 8 80])
     = Inr (projr (run (hash_tree_init id) (example_ops @ [Set_Parent 4 1, Erase 2, Insert 1 8 80]))) \<and>
   proper_run (hash_tree_init id) (example_ops @ [Set_Parent 4 1, Erase 2, Insert 1 8 80]) \<and>
   rooted (projr (run (hash_tree_init id) (example_ops @ [Set_Parent 4 1, Erase 2, Insert 1 8 80]))) \<and>
   size_ht (projr (run (hash_tree_init id) (example_ops @ [Set_Parent 4 1, Erase 2, Insert 1 8 80]))) = 3 \<and>
   map_sum id (map fst)
     (traversal (projr (run (hash_tree_init id) (example_ops @ [Set_Parent 4 1, Erase 2, Insert 1 8 80]))))
     = Inr [Some 0, Some 3, Some 1] \<and>
   (\<exists>xs ord.
      traversal (projr (run (hash_tree_init id) (example_ops @ [Set_Parent 4 1, Erase 2, Insert 1 8 80])))
        = Inr xs \<and>
      length xs = size_ht (projr (run (hash_tree_init id) (example_ops @ [Set_Parent 4 1, Erase 2, Insert 1 8 80]))) \<and>
      distinct ord \<and>
      set ord = {j. sv_get (nodes (projr (run (hash_tree_init id)
                      (example_ops @ [Set_Parent 4 1, Erase 2, Insert 1 8 80])))) j \<noteq> None})"
proof -
  let ?ops = "example_ops @ [Set_Parent 4 1, Erase 2, Insert 1 8 80]"
  let ?W = "projr (run (hash_tree_init id) ?ops)"
  have "\<not> isl (run (hash_tree_init id) ?ops)" by code_simp
  then have r: "run (hash_tree_init id) ?ops = Inr ?W" by (rule Inr_projr)
  have g: "proper_run (hash_tree_init id) ?ops" by code_simp
  note T = traversal_breadth_first [of id ?ops ?W ?W]
  from T [THEN conjunct1, THEN mp, OF conjI [OF r g]] have ro: "rooted ?W" .
  have sz: "size_ht ?W = 3" by code_simp
  have ev: "map_sum id (map fst) (traversal ?W) = Inr [Some 0, Some 3, Some 1]" by code_simp
  from T [THEN conjunct2, THEN mp, OF ro, THEN conjunct2]
  have "\<exists>xs ord. traversal ?W = Inr xs \<and> length xs = size_ht ?W \<and> distinct ord \<and>
      set ord = {j. sv_get (nodes ?W) j \<noteq> None}"
    by (elim exE conjE) blast
  with r g ro sz ev show ?thesis by (intro conjI)
qed

text \<open>
  C5 as stated fails. Two inserts into the empty map leave two nodes in two buckets, a
  load factor of \<open>1\<close> above \<open>MAX_LOAD\<close>, with no rehash pending. And an erase that
  triggers the shrink policy halves the table once only: erasing the child of the root
  in the nine-node example leaves one node in eight buckets, below \<open>MIN_LOAD\<close>.
\<close>

theorem load_factor_bounds_counterexample:
  "map_sum id load_factor
     (run (hash_tree_init id) [Insert 0 (1::nat) (10::nat), Insert 1 2 20]) = Inr 1 \<and>
   MAX_LOAD < 1 \<and>
   map_sum id table_size (run (hash_tree_init id) wide_ops) = Inr 16 \<and>
   map_sum id table_size (run (hash_tree_init id) (wide_ops @ [Erase 2])) = Inr 8 \<and>
   map_sum id load_factor (run (hash_tree_init id) (wide_ops @ [Erase 2])) = Inr (1 / 8) \<and>
   1 / 8 < MIN_LOAD"
  by code_simp

text \<open>
  C5 (amended). Let \<open>size() \<le> table_size()\<close> and \<open>table_size() \<ge> 2\<close>. An insert that
  triggers a rehash doubles the table and returns with
  \<open>MIN_LOAD \<le> load_factor() \<le> MAX_LOAD\<close>. An erase of a key other than the root's that
  triggers a rehash halves the table and returns with \<open>load_factor() \<le> MAX_LOAD\<close>; it
  may be below \<open>MIN_LOAD\<close>. On a map that satisfies the root invariant, inserts and
  erases of keys other than the root's keep \<open>size() \<le> table_size()\<close> and
  \<open>table_size() \<ge> 2\<close>; between operations the load factor is bounded by \<open>1\<close>, not by
  \<open>MAX_LOAD\<close>, and has no lower bound.
\<close>

theorem load_factor_after_rehash:
  "(size_ht st \<le> table_size st \<and> 2 \<le> table_size st \<and> load_above_max st \<and>
      (insert_kv st s k v = Inr st' \<or> insert_kvp st s k v p = Inr st')
     \<longrightarrow> table_size st' = 2 * table_size st \<and>
         MIN_LOAD \<le> load_factor st' \<and> load_factor st' \<le> MAX_LOAD) \<and>
   (2 \<le> table_size st \<and> erase st key = Inr st'' \<and> index st key \<noteq> Inr (head_index st) \<and>
      table_size st'' \<noteq> table_size st
     \<longrightarrow> table_size st'' = table_size st div 2 \<and> load_factor st'' \<le> MAX_LOAD) \<and>
   (size_ht st \<le> table_size st \<and> 2 \<le> table_size st \<and> tree_inv st \<and>
      (insert_kv st s k v = Inr st3 \<or> insert_kvp st s k v p = Inr st3 \<or>
       erase st key = Inr st3 \<and> index st key \<noteq> Inr (head_index st))
     \<longrightarrow> size_ht st3 \<le> table_size st3 \<and> 2 \<le> table_size st3)"
proof (intro conjI impI)
  assume a: "size_ht st \<le> table_size st \<and> 2 \<le> table_size st \<and> load_above_max st \<and>
      (insert_kv st s k v = Inr st' \<or> insert_kvp st s k v p = Inr st')"
  then have ins: "insert_kv st s k v = Inr st' \<or> insert_kvp st s k v p = Inr st'" by simp
  from a insert_table_size [OF ins] have t': "table_size st' = 2 * table_size st" by simp
  from insert_size [OF ins] have s': "size_ht st' = Suc (size_ht st)" .
  from a have "9 * table_size st < 10 * size_ht st"
    by (auto simp: load_above_max_iff split: if_splits)
  with a have b1: "2 * table_size st \<le> 5 * Suc (size_ht st)"
    and b2: "10 * Suc (size_ht st) \<le> 9 * (2 * table_size st)" by simp_all
  from a have pos: "0 < 2 * table_size st" by simp
  have "MIN_LOAD \<le> load_factor st'"
    unfolding load_factor_def t' s' load_ge_min_iff [OF pos] by (rule b1)
  moreover have "load_factor st' \<le> MAX_LOAD"
    unfolding load_factor_def t' s' load_le_max_iff [OF pos] by (rule b2)
  ultimately show "table_size st' = 2 * table_size st" "MIN_LOAD \<le> load_factor st'"
    "load_factor st' \<le> MAX_LOAD" using t' by simp_all
next
  assume a: "2 \<le> table_size st \<and> erase st key = Inr st'' \<and> index st key \<noteq> Inr (head_index st) \<and>
      table_size st'' \<noteq> table_size st"
  then have er: "erase st key = Inr st''" and nr: "index st key \<noteq> Inr (head_index st)" by simp_all
  from erase_sizes [OF er nr] a have t': "table_size st'' = table_size st div 2"
    and lt: "5 * size_ht st'' < table_size st" by (auto split: if_splits)
  from a have pos: "0 < table_size st div 2" by simp
  from lt have b: "10 * size_ht st'' \<le> 9 * (table_size st div 2)" by simp
  have "load_factor st'' \<le> MAX_LOAD"
    unfolding load_factor_def t' load_le_max_iff [OF pos] by (rule b)
  with t' show "table_size st'' = table_size st div 2" "load_factor st'' \<le> MAX_LOAD" by simp_all
next
  assume a: "size_ht st \<le> table_size st \<and> 2 \<le> table_size st \<and> tree_inv st \<and>
      (insert_kv st s k v = Inr st3 \<or> insert_kvp st s k v p = Inr st3 \<or>
       erase st key = Inr st3 \<and> index st key \<noteq> Inr (head_index st))"
  then have inv: "tree_inv st" by simp
  from a consider (ins) "insert_kv st s k v = Inr st3 \<or> insert_kvp st s k v p = Inr st3"
    | (er) "erase st key = Inr st3" "index st key \<noteq> Inr (head_index st)" by blast
  then have "size_ht st3 \<le> table_size st3 \<and> 2 \<le> table_size st3"
  proof cases
    case ins
    note t' = insert_table_size [OF ins] and s' = insert_size [OF ins]
    show ?thesis
    proof (cases "load_above_max st")
      case True
      with t' s' a show ?thesis by simp
    next
      case False
      with a have "10 * size_ht st \<le> 9 * table_size st"
        by (auto simp: load_above_max_iff split: if_splits)
      with False t' s' a show ?thesis by simp
    qed
  next
    case er
    note e = erase_sizes [OF er]
    from er(1) have "tree_inv st3" using inv by (rule erase_tree_inv)
    moreover from er(1) have "head_index st3 \<noteq> None"
    proof (cases rule: erase_cases)
      case root
      with er(2) show ?thesis by simp
    next
      case (sub i nd w w')
      from sub(3) have "tree_of (nodes st) i \<noteq> None" by (simp add: tree_of_None_iff)
      with tree_invD(2) [OF inv] sub(7) show ?thesis by auto
    qed
    ultimately have "size_ht st3 \<noteq> 0" by (simp add: tree_inv_def single_root_def)
    with e a show ?thesis by (auto split: if_splits)
  qed
  then show "size_ht st3 \<le> table_size st3" "2 \<le> table_size st3" by simp_all
qed

theorem load_factor_after_rehash_witness:
  "size_ht example_tree \<le> table_size example_tree \<and> 2 \<le> table_size example_tree \<and>
   load_above_max example_tree \<and> tree_inv example_tree \<and>
   insert_kv example_tree 4 5 50 = Inr (projr (insert_kv example_tree 4 5 50)) \<and>
   table_size (projr (insert_kv example_tree 4 5 50)) = 2 * table_size example_tree \<and>
   MIN_LOAD \<le> load_factor (projr (insert_kv example_tree 4 5 50)) \<and>
   load_factor (projr (insert_kv example_tree 4 5 50)) \<le> MAX_LOAD \<and>
   size_ht (projr (insert_kv example_tree 4 5 50)) \<le> table_size (projr (insert_kv example_tree 4 5 50)) \<and>
   2 \<le> table_size wide_tree \<and> erase wide_tree 2 = Inr (projr (erase wide_tree 2)) \<and>
   index wide_tree 2 \<noteq> Inr (head_index wide_tree) \<and>
   table_size (projr (erase wide_tree 2)) \<noteq> table_size wide_tree \<and>
   table_size (projr (erase wide_tree 2)) = table_size wide_tree div 2 \<and>
   load_factor (projr (erase wide_tree 2)) \<le> MAX_LOAD"
proof -
  let ?st' = "projr (insert_kv example_tree 4 5 50)"
  let ?st'' = "projr (erase wide_tree 2)"
  have h1: "size_ht example_tree \<le> table_size example_tree" "2 \<le> table_size example_tree"
    "load_above_max example_tree" by code_simp+
  have "\<not> isl (insert_kv example_tree 4 5 50)" by code_simp
  then have ins: "insert_kv example_tree 4 5 50 = Inr ?st'" by (rule Inr_projr)
  have h2: "2 \<le> table_size wide_tree" "index wide_tree 2 \<noteq> Inr (head_index wide_tree)"
    "table_size ?st'' \<noteq> table_size wide_tree" by code_simp+
  have "\<not> isl (erase wide_tree 2)" by code_simp
  then have er: "erase wide_tree 2 = Inr ?st''" by (rule Inr_projr)
  note a = load_factor_after_rehash [of example_tree 4 5 50 ?st' 1 2 ?st'' ?st']
  note b = load_factor_after_rehash [of wide_tree 4 5 50 ?st' 1 2 ?st'' ?st']
  from a h1 ins tree_inv_example have
    "table_size ?st' = 2 * table_size example_tree \<and>
     MIN_LOAD \<le> load_factor ?st' \<and> load_factor ?st' \<le> MAX_LOAD"
    "size_ht ?st' \<le> table_size ?st'" by blast+
  moreover from b h2 er have
    "table_size ?st'' = table_size wide_tree div 2 \<and> load_factor ?st'' \<le> MAX_LOAD" by blast
  ultimately show ?thesis using h1 h2 ins er tree_inv_example by blast
qed

end
